theory Spec2Isabelle
  imports Main
begin

section \<open>The session-info parser of the native bindings (addon.cpp)\<close>

text \<open>
  The parser of \<^verbatim>\<open>packages/runtime/src/addon.cpp\<close> turns the session text of the
  telemetry client into a tree of JavaScript values. It builds the tree through N-API
  handles: every container is an object of the JavaScript heap, the context stack holds
  handles of the containers that are still open, and a line mutates the container its
  context refers to. The embedding keeps that shape. The heap is a list of cells, a handle
  of a container is the index of its cell, and a failed N-API call (the source then
  throws and returns \<^verbatim>\<open>nullptr\<close>) is the value \<open>None\<close>.
\<close>

subsection \<open>Characters and the helpers on strings\<close>

definition LF :: char where "LF = CHR 0x0A"
definition CR :: char where "CR = CHR 0x0D"
definition TAB :: char where "TAB = CHR 0x09"
definition DQUOTE :: char where "DQUOTE = CHR 0x22"

text \<open>\<^verbatim>\<open>std::isspace\<close> in the "C" locale: space, \<^verbatim>\<open>\t \n \v \f \r\<close>.\<close>

definition isspace :: "char \<Rightarrow> bool" where
  "isspace c \<longleftrightarrow> c = CHR '' '' \<or> c = CHR 0x09 \<or> c = CHR 0x0A \<or> c = CHR 0x0B
     \<or> c = CHR 0x0C \<or> c = CHR 0x0D"

text \<open>
  \<^verbatim>\<open>Trim\<close> (lines 297-311): \<open>start\<close> runs over the leading white space, \<open>end\<close> runs back
  over the trailing white space, the result is the text between them.
\<close>

definition Trim :: "string \<Rightarrow> string" where
  "Trim v = rev (dropWhile isspace (rev (dropWhile isspace v)))"

text \<open>
  \<^verbatim>\<open>LeadingIndent\<close> (lines 313-324) counts leading spaces and tabs. The source counts in
  an \<^verbatim>\<open>int\<close>; the embedding takes lines shorter than \<open>2^31\<close> characters and counts in
  \<open>int\<close>.
\<close>

definition LeadingIndent :: "string \<Rightarrow> int" where
  "LeadingIndent v = int (length (takeWhile (\<lambda>c. c = CHR '' '' \<or> c = TAB) v))"

text \<open>
  \<^verbatim>\<open>SplitLines\<close> (lines 326-342). The text is a C string: the characters before its
  terminating zero. \<open>current\<close> and \<open>lines\<close> are the two variables of the loop.
\<close>

fun SplitLines_loop :: "string \<Rightarrow> string \<Rightarrow> string list \<Rightarrow> string list" where
  "SplitLines_loop [] current lines = lines @ [current]"
| "SplitLines_loop (ch # text) current lines =
     (if ch = CR then SplitLines_loop text current lines
      else if ch = LF then SplitLines_loop text [] (lines @ [current])
      else SplitLines_loop text (current @ [ch]) lines)"

definition SplitLines :: "string \<Rightarrow> string list" where
  "SplitLines text = SplitLines_loop text [] []"

text \<open>\<^verbatim>\<open>std::string::find\<close> of one character: the first position, or \<open>None\<close> for \<^verbatim>\<open>npos\<close>.\<close>

fun find_char :: "char \<Rightarrow> string \<Rightarrow> nat option" where
  "find_char c [] = None"
| "find_char c (x # xs) = (if x = c then Some 0 else map_option Suc (find_char c xs))"

record NextLineInfo =
  found :: bool
  n_indent :: int
  starts_with_dash :: bool

text \<open>\<^verbatim>\<open>PeekNextLine\<close> (lines 350-359): the first line from \<open>start\<close> on that is not blank.\<close>

function PeekNextLine :: "string list \<Rightarrow> nat \<Rightarrow> NextLineInfo" where
  "PeekNextLine lines start =
     (if start < length lines then
        (let trimmed = Trim (lines ! start) in
         if trimmed \<noteq> [] then
           \<lparr>found = True, n_indent = LeadingIndent (lines ! start),
            starts_with_dash = (trimmed \<noteq> [] \<and> hd trimmed = CHR ''-'')\<rparr>
         else PeekNextLine lines (start + 1))
      else \<lparr>found = False, n_indent = 0, starts_with_dash = False\<rparr>)"
  by pat_completeness auto
termination
  by (relation "measure (\<lambda>(lines, start). length lines - start)") auto

declare PeekNextLine.simps [simp del]

subsection \<open>The number parsers\<close>

text \<open>
  \<^verbatim>\<open>strtoll\<close> and \<^verbatim>\<open>strtod\<close> belong to the C library. \<open>strtoll\<close> with base 10 is
  written out after ISO C 7.22.1.4: white space is skipped, one sign is optional, the
  longest run of decimal digits is converted, and a value outside the range of
  \<^verbatim>\<open>long long\<close> is replaced by the nearest bound with \<^verbatim>\<open>errno = ERANGE\<close>. The result is
  the value, the number of characters up to \<^verbatim>\<open>end\<close> (0 when nothing was converted), and
  whether \<^verbatim>\<open>errno\<close> is \<^verbatim>\<open>ERANGE\<close>.
\<close>

definition LLONG_MAX :: int where "LLONG_MAX = 2 ^ 63 - 1"
definition LLONG_MIN :: int where "LLONG_MIN = - (2 ^ 63)"

definition is_digit :: "char \<Rightarrow> bool" where
  "is_digit c \<longleftrightarrow> 48 \<le> (of_char c :: nat) \<and> (of_char c :: nat) \<le> 57"

definition digit_val :: "char \<Rightarrow> int" where
  "digit_val c = int (of_char c) - 48"

definition strtoll :: "string \<Rightarrow> int \<times> nat \<times> bool" where
  "strtoll s =
     (let ws = takeWhile isspace s;
          s1 = dropWhile isspace s;
          neg = (s1 \<noteq> [] \<and> hd s1 = CHR ''-'');
          sign_len = (if s1 \<noteq> [] \<and> (hd s1 = CHR ''-'' \<or> hd s1 = CHR ''+'') then 1 else 0);
          ds = takeWhile is_digit (drop sign_len s1);
          mag = foldl (\<lambda>acc d. 10 * acc + digit_val d) 0 ds;
          v = (if neg then - mag else mag);
          consumed = length ws + sign_len + length ds
      in if ds = [] then (0, 0, False)
         else if LLONG_MAX < v then (LLONG_MAX, consumed, True)
         else if v < LLONG_MIN then (LLONG_MIN, consumed, True)
         else (v, consumed, False))"

text \<open>
  \<^verbatim>\<open>strtod\<close> computes in floating point and is a parameter of the embedding, with the
  same three results: the parsed double (of a type \<open>'d\<close> left open), the number of
  characters up to \<^verbatim>\<open>end\<close>, and whether \<^verbatim>\<open>errno\<close> is \<^verbatim>\<open>ERANGE\<close>.
\<close>

type_synonym 'd strtod_fn = "string \<Rightarrow> 'd \<times> nat \<times> bool"

text \<open>
  The test of lines 266 and 284. A \<^verbatim>\<open>std::string\<close> made from a C string has no zero
  character inside, so \<^verbatim>\<open>*end != 0\<close> says that \<open>end\<close> is not the end of the text.
\<close>

definition hex_prefixed :: "string \<Rightarrow> bool" where
  "hex_prefixed v \<longleftrightarrow> 2 < length v \<and> v ! 0 = CHR ''0'' \<and> (v ! 1 = CHR ''x'' \<or> v ! 1 = CHR ''X'')"

definition TryParseInt64 :: "string \<Rightarrow> int option" where
  "TryParseInt64 v =
     (if v = [] then None
      else if hex_prefixed v then None
      else (case strtoll v of (parsed, end, erange) \<Rightarrow>
              if erange \<or> end = 0 \<or> end \<noteq> length v then None else Some parsed))"

definition TryParseDouble :: "'d strtod_fn \<Rightarrow> string \<Rightarrow> 'd option" where
  "TryParseDouble strtod v =
     (if v = [] then None
      else if hex_prefixed v then None
      else (case strtod v of (parsed, end, erange) \<Rightarrow>
              if erange \<or> end = 0 \<or> end \<noteq> length v then None else Some parsed))"

subsection \<open>JavaScript values and the heap\<close>

text \<open>
  A \<^verbatim>\<open>napi_value\<close> is a scalar or the handle of a container. An object keeps its
  properties in the order in which they were first set (the order in which a JavaScript
  engine enumerates keys that look like array indices is not modelled). \<open>JInt\<close> and
  \<open>JDouble\<close> record which of \<^verbatim>\<open>napi_create_int64\<close> and \<^verbatim>\<open>napi_create_double\<close> made the
  number. The calls that create a value are taken to succeed.
\<close>

type_synonym addr = nat

datatype 'd jsval =
    JNull
  | JBool bool
  | JInt int
  | JDouble 'd
  | JString string
  | JRef addr

datatype 'd jsnode =
    JObject "(string \<times> 'd jsval) list"
  | JArray "'d jsval list"

type_synonym 'd heap = "'d jsnode list"

definition napi_create_object :: "'d heap \<Rightarrow> 'd heap \<times> addr" where
  "napi_create_object h = (h @ [JObject []], length h)"

definition napi_create_array :: "'d heap \<Rightarrow> 'd heap \<times> addr" where
  "napi_create_array h = (h @ [JArray []], length h)"

text \<open>\<^verbatim>\<open>napi_set_property\<close> on the properties of an object: a known key keeps its place.\<close>

fun set_property :: "(string \<times> 'v) list \<Rightarrow> string \<Rightarrow> 'v \<Rightarrow> (string \<times> 'v) list" where
  "set_property [] k v = [(k, v)]"
| "set_property ((k', v') # kvs) k v =
     (if k' = k then (k, v) # kvs else (k', v') # set_property kvs k v)"

text \<open>
  \<^verbatim>\<open>AppendToArray\<close> (lines 396-403): \<^verbatim>\<open>napi_get_array_length\<close> fails on a handle that
  is not an array. \<^verbatim>\<open>SetObjectProperty\<close> (lines 405-412) is called on objects only; the
  embedding lets it fail on an array, which has no list of named properties here.
\<close>

definition AppendToArray :: "'d heap \<Rightarrow> addr \<Rightarrow> 'd jsval \<Rightarrow> 'd heap option" where
  "AppendToArray h a v =
     (if a < length h then
        (case h ! a of
           JArray vs \<Rightarrow> Some (h[a := JArray (vs @ [v])])
         | JObject _ \<Rightarrow> None)
      else None)"

definition SetObjectProperty :: "'d heap \<Rightarrow> addr \<Rightarrow> string \<Rightarrow> 'd jsval \<Rightarrow> 'd heap option" where
  "SetObjectProperty h a key v =
     (if a < length h then
        (case h ! a of
           JObject kvs \<Rightarrow> Some (h[a := JObject (set_property kvs key v)])
         | JArray _ \<Rightarrow> None)
      else None)"

text \<open>\<^verbatim>\<open>ParseScalarToJs\<close> (lines 361-394).\<close>

definition ParseScalarToJs :: "'d strtod_fn \<Rightarrow> string \<Rightarrow> 'd jsval" where
  "ParseScalarToJs strtod v =
     (if v = [] then JNull
      else if 2 \<le> length v \<and> hd v = DQUOTE \<and> last v = DQUOTE then
        JString (take (length v - 2) (drop 1 v))
      else if v = ''true'' then JBool True
      else if v = ''false'' then JBool False
      else (case TryParseInt64 v of
              Some int_value \<Rightarrow> JInt int_value
            | None \<Rightarrow>
                (case TryParseDouble strtod v of
                   Some double_value \<Rightarrow> JDouble double_value
                 | None \<Rightarrow> JString v)))"

subsection \<open>The context stack and the tree builder\<close>

text \<open>
  The struct \<^verbatim>\<open>Context\<close> of lines 422-426 (its fields carry the prefix \<open>c_\<close> here). The
  \<^verbatim>\<open>std::vector\<close> of contexts is a list whose head is \<^verbatim>\<open>stack.back()\<close>.
\<close>

record Context =
  c_indent :: int
  c_is_array :: bool
  c_container :: addr

record 'd parse_state =
  stack :: "Context list"
  heap :: "'d heap"

text \<open>The pop phase, lines 439-441.\<close>

function pop_phase :: "int \<Rightarrow> Context list \<Rightarrow> Context list" where
  "pop_phase indent stk =
     (if 1 < length stk \<and> indent \<le> c_indent (hd stk) then pop_phase indent (tl stk) else stk)"
  by pat_completeness auto
termination
  by (relation "measure (\<lambda>(indent, stk). length stk)") auto

declare pop_phase.simps [simp del]

text \<open>The container that an empty value opens: an array when the next line is an item.\<close>

definition next_is_array :: "NextLineInfo \<Rightarrow> bool" where
  "next_is_array next_info \<longleftrightarrow> found next_info \<and> starts_with_dash next_info"

definition create_child :: "NextLineInfo \<Rightarrow> 'd heap \<Rightarrow> 'd heap \<times> addr" where
  "create_child next_info h =
     (if next_is_array next_info then napi_create_array h else napi_create_object h)"

definition child_indent :: "NextLineInfo \<Rightarrow> int \<Rightarrow> int" where
  "child_indent next_info indent = (if found next_info then n_indent next_info else indent + 1)"

text \<open>
  Lines 449-512: a sequence item under an array. \<open>st\<close> is the state after the pop phase
  and \<open>current\<close> its top context.
\<close>

definition sequence_item ::
  "'d strtod_fn \<Rightarrow> string list \<Rightarrow> nat \<Rightarrow> int \<Rightarrow> string \<Rightarrow> Context \<Rightarrow> 'd parse_state
     \<Rightarrow> 'd parse_state option" where
  "sequence_item strtod lines i indent trimmed current st =
     (let item_text = Trim (drop 1 trimmed) in
      if item_text = [] then
        (let next_info = PeekNextLine lines (i + 1);
             (h1, child) = create_child next_info (heap st)
         in case AppendToArray h1 (c_container current) (JRef child) of
              None \<Rightarrow> None
            | Some h2 \<Rightarrow>
                Some \<lparr>stack = \<lparr>c_indent = child_indent next_info indent,
                                c_is_array = next_is_array next_info,
                                c_container = child\<rparr> # stack st,
                      heap = h2\<rparr>)
      else
        (case find_char (CHR '':'') item_text of
           Some colon \<Rightarrow>
             (let key = Trim (take colon item_text);
                  raw_value = Trim (drop (colon + 1) item_text);
                  (h1, item_obj) = napi_create_object (heap st);
                  next_info = PeekNextLine lines (i + 1)
              in if raw_value = [] then
                   (let (h2, child) = create_child next_info h1
                    in case SetObjectProperty h2 item_obj key (JRef child) of
                         None \<Rightarrow> None
                       | Some h3 \<Rightarrow>
                           (case AppendToArray h3 (c_container current) (JRef item_obj) of
                              None \<Rightarrow> None
                            | Some h4 \<Rightarrow>
                                Some \<lparr>stack =
                                        \<lparr>c_indent = child_indent next_info indent,
                                         c_is_array = next_is_array next_info,
                                         c_container = child\<rparr>
                                        # \<lparr>c_indent = indent, c_is_array = False,
                                           c_container = item_obj\<rparr>
                                        # stack st,
                                      heap = h4\<rparr>))
                 else
                   (let val = ParseScalarToJs strtod raw_value
                    in case SetObjectProperty h1 item_obj key val of
                         None \<Rightarrow> None
                       | Some h2 \<Rightarrow>
                           (case AppendToArray h2 (c_container current) (JRef item_obj) of
                              None \<Rightarrow> None
                            | Some h3 \<Rightarrow>
                                Some \<lparr>stack =
                                        (if found next_info \<and> indent < n_indent next_info
                                         then \<lparr>c_indent = indent, c_is_array = False,
                                               c_container = item_obj\<rparr> # stack st
                                         else stack st),
                                      heap = h3\<rparr>)))
         | None \<Rightarrow>
             (let val = ParseScalarToJs strtod item_text
              in case AppendToArray (heap st) (c_container current) val of
                   None \<Rightarrow> None
                 | Some h1 \<Rightarrow> Some (st\<lparr>heap := h1\<rparr>))))"

text \<open>Lines 519-545: a mapping entry under an object, again after the pop phase.\<close>

definition mapping_entry ::
  "'d strtod_fn \<Rightarrow> string list \<Rightarrow> nat \<Rightarrow> int \<Rightarrow> string \<Rightarrow> Context \<Rightarrow> 'd parse_state
     \<Rightarrow> 'd parse_state option" where
  "mapping_entry strtod lines i indent trimmed current st =
     (case find_char (CHR '':'') trimmed of
        None \<Rightarrow> Some st
      | Some colon \<Rightarrow>
          (let key = Trim (take colon trimmed);
               raw_value = Trim (drop (colon + 1) trimmed)
           in if raw_value = [] then
                (let next_info = PeekNextLine lines (i + 1);
                     (h1, child) = create_child next_info (heap st)
                 in case SetObjectProperty h1 (c_container current) key (JRef child) of
                      None \<Rightarrow> None
                    | Some h2 \<Rightarrow>
                        Some \<lparr>stack = \<lparr>c_indent = child_indent next_info indent,
                                        c_is_array = next_is_array next_info,
                                        c_container = child\<rparr> # stack st,
                              heap = h2\<rparr>)
              else
                (let val = ParseScalarToJs strtod raw_value
                 in case SetObjectProperty (heap st) (c_container current) key val of
                      None \<Rightarrow> None
                    | Some h1 \<Rightarrow> Some (st\<lparr>heap := h1\<rparr>))))"

text \<open>
  One turn of the loop of lines 431-546, on line \<open>i\<close>. \<^verbatim>\<open>stack.back()\<close> of an empty
  vector is undefined behaviour, and \<open>None\<close> here.
\<close>

definition process_line ::
  "'d strtod_fn \<Rightarrow> string list \<Rightarrow> nat \<Rightarrow> 'd parse_state \<Rightarrow> 'd parse_state option" where
  "process_line strtod lines i st =
     (let raw_line = lines ! i;
          trimmed = Trim raw_line
      in if trimmed = [] then Some st
         else
           (let indent = LeadingIndent raw_line;
                st1 = st\<lparr>stack := pop_phase indent (stack st)\<rparr>
            in case stack st1 of
                 [] \<Rightarrow> None
               | current # _ \<Rightarrow>
                   if trimmed \<noteq> [] \<and> hd trimmed = CHR ''-'' then
                     (if \<not> c_is_array current then Some st1
                      else sequence_item strtod lines i indent trimmed current st1)
                   else if c_is_array current then Some st1
                   else mapping_entry strtod lines i indent trimmed current st1))"

text \<open>The loop from index \<open>i\<close> to the end of the lines.\<close>

function parse_loop ::
  "'d strtod_fn \<Rightarrow> string list \<Rightarrow> nat \<Rightarrow> 'd parse_state \<Rightarrow> 'd parse_state option" where
  "parse_loop strtod lines i st =
     (if i < length lines then
        (case process_line strtod lines i st of
           None \<Rightarrow> None
         | Some st' \<Rightarrow> parse_loop strtod lines (i + 1) st')
      else Some st)"
  by pat_completeness auto
termination
  by (relation "measure (\<lambda>(strtod, lines, i, st). length lines - i)") auto

declare parse_loop.simps [simp del]

text \<open>
  The state in which the loop starts (lines 419-429): the root object is created in the
  heap \<open>h0\<close> the caller's JavaScript environment has at that moment.
\<close>

definition root_context :: "addr \<Rightarrow> Context" where
  "root_context root = \<lparr>c_indent = - 1, c_is_array = False, c_container = root\<rparr>"

definition initial_state :: "'d heap \<Rightarrow> 'd parse_state" where
  "initial_state h0 =
     (let (h1, root) = napi_create_object h0 in \<lparr>stack = [root_context root], heap = h1\<rparr>)"

text \<open>
  \<^verbatim>\<open>ParseSessionYamlToJs\<close> (lines 414-549) returns the handle \<open>root\<close>; the heap it leaves
  behind is returned with it.
\<close>

definition ParseSessionYamlToJs :: "'d strtod_fn \<Rightarrow> 'd heap \<Rightarrow> string \<Rightarrow> ('d heap \<times> addr) option" where
  "ParseSessionYamlToJs strtod h0 session =
     (let lines = SplitLines session
      in case parse_loop strtod lines 0 (initial_state h0) of
           None \<Rightarrow> None
         | Some st \<Rightarrow> Some (heap st, length h0))"

text \<open>The state after the first \<open>n\<close> turns of the loop on \<open>lines\<close>.\<close>

fun state_after :: "'d strtod_fn \<Rightarrow> string list \<Rightarrow> 'd heap \<Rightarrow> nat \<Rightarrow> 'd parse_state option" where
  "state_after strtod lines h0 0 = Some (initial_state h0)"
| "state_after strtod lines h0 (Suc n) =
     (case state_after strtod lines h0 n of
        None \<Rightarrow> None
      | Some st \<Rightarrow> if n < length lines then process_line strtod lines n st else Some st)"

subsection \<open>The tree a handle stands for\<close>

text \<open>
  The value tree of the specification, read off the heap. The parser attaches a
  container only to a container created before it, so a reference is followed only to a
  later cell; a handle out of the heap, or a reference backwards, has no tree.
\<close>

datatype 'd Value =
    Null
  | Bool bool
  | Int64 int
  | Double 'd
  | String string
  | Object "(string \<times> 'd Value) list"
  | Array "'d Value list"

fun all_some :: "'a option list \<Rightarrow> 'a list option" where
  "all_some [] = Some []"
| "all_some (None # xs) = None"
| "all_some (Some x # xs) = map_option ((#) x) (all_some xs)"

function tree_of :: "'d heap \<Rightarrow> addr \<Rightarrow> 'd Value option" where
  "tree_of h a =
     (if a < length h then
        (let sub = (\<lambda>v. case v of
                      JNull \<Rightarrow> Some Null
                    | JBool b \<Rightarrow> Some (Bool b)
                    | JInt n \<Rightarrow> Some (Int64 n)
                    | JDouble d \<Rightarrow> Some (Double d)
                    | JString s \<Rightarrow> Some (String s)
                    | JRef a' \<Rightarrow> if a < a' \<and> a' < length h then tree_of h a' else None)
         in case h ! a of
              JObject kvs \<Rightarrow>
                map_option (\<lambda>ts. Object (zip (map fst kvs) ts)) (all_some (map (\<lambda>kv. sub (snd kv)) kvs))
            | JArray vs \<Rightarrow> map_option Array (all_some (map sub vs)))
      else None)"
  by pat_completeness auto
termination
  by (relation "measure (\<lambda>(h, a). length h - a)") auto

declare tree_of.simps [simp del]

definition ParseSessionYamlToTree :: "'d strtod_fn \<Rightarrow> 'd heap \<Rightarrow> string \<Rightarrow> 'd Value option" where
  "ParseSessionYamlToTree strtod h0 session =
     (case ParseSessionYamlToJs strtod h0 session of
        None \<Rightarrow> None
      | Some (h, root) \<Rightarrow> tree_of h root)"

subsection \<open>Notions used to state the properties\<close>

text \<open>The lines joined again, with one line feed between two lines.\<close>

fun join_lines :: "string list \<Rightarrow> string" where
  "join_lines [] = []"
| "join_lines [l] = l"
| "join_lines (l # l' # ls) = l @ LF # join_lines (l' # ls)"

text \<open>
  Scalar inference as the specification words it (its section 4.3): the text "looks like
  a 0x/0X-prefixed literal", a parse counts when it consumed the entire text without a
  range error, and the quoted string is the inner text.
\<close>

definition looks_hex :: "string \<Rightarrow> bool" where
  "looks_hex v \<longleftrightarrow> 2 < length v \<and> (take 2 v = ''0x'' \<or> take 2 v = ''0X'')"

definition whole_text :: "'a \<times> nat \<times> bool \<Rightarrow> string \<Rightarrow> 'a option" where
  "whole_text r v =
     (case r of (parsed, end, erange) \<Rightarrow>
        if \<not> erange \<and> 0 < end \<and> end = length v then Some parsed else None)"

definition scalar_rules :: "'d strtod_fn \<Rightarrow> string \<Rightarrow> 'd jsval" where
  "scalar_rules strtod v =
     (if 2 \<le> length v \<and> hd v = DQUOTE \<and> last v = DQUOTE then JString (butlast (tl v))
      else if v = ''true'' then JBool True
      else if v = ''false'' then JBool False
      else (case (if looks_hex v then None else whole_text (strtoll v) v) of
              Some n \<Rightarrow> JInt n
            | None \<Rightarrow>
               (case (if looks_hex v then None else whole_text (strtod v) v) of
                  Some d \<Rightarrow> JDouble d
                | None \<Rightarrow> JString v)))"

text \<open>
  Closed instances below need some \<open>strtod\<close>. This one converts nothing (\<^verbatim>\<open>end\<close> stays at
  the start of the text); it is used only on inputs whose values are settled before
  \<^verbatim>\<open>strtod\<close> is asked, or to show that a hypothesis can be met.
\<close>

definition strtod_nothing :: "unit strtod_fn" where
  "strtod_nothing s = ((), 0, False)"

text \<open>
  The invariant of the loop. A context refers to a cell of the heap created by this
  parse, and its flag \<open>c_is_array\<close> agrees with the kind of that cell; references in the
  cells of this parse point to cells created later; the cells the caller had before the
  call (\<open>h0\<close>) are untouched. Only the top context can be an array, and then its indent
  is the indent of the next line that is not blank.
\<close>

fun is_array_node :: "'d jsnode \<Rightarrow> bool" where
  "is_array_node (JArray vs) = True"
| "is_array_node (JObject kvs) = False"

fun node_values :: "'d jsnode \<Rightarrow> 'd jsval list" where
  "node_values (JObject kvs) = map snd kvs"
| "node_values (JArray vs) = vs"

fun ref_ok :: "addr \<Rightarrow> nat \<Rightarrow> 'd jsval \<Rightarrow> bool" where
  "ref_ok a n (JRef a') = (a < a' \<and> a' < n)"
| "ref_ok a n v = True"

definition heap_forward :: "addr \<Rightarrow> 'd heap \<Rightarrow> bool" where
  "heap_forward root h \<longleftrightarrow>
     list_all (\<lambda>a. list_all (ref_ok a (length h)) (node_values (h ! a))) [root..<length h]"

definition context_ok :: "addr \<Rightarrow> 'd heap \<Rightarrow> Context \<Rightarrow> bool" where
  "context_ok root h c \<longleftrightarrow>
     root \<le> c_container c \<and> c_container c < length h
     \<and> (c_is_array c \<longleftrightarrow> is_array_node (h ! c_container c))"

definition state_ok :: "'d heap \<Rightarrow> string list \<Rightarrow> nat \<Rightarrow> 'd parse_state \<Rightarrow> bool" where
  "state_ok h0 lines i st \<longleftrightarrow>
     stack st \<noteq> [] \<and> last (stack st) = root_context (length h0)
     \<and> list_all (context_ok (length h0) (heap st)) (stack st)
     \<and> list_all (\<lambda>c. \<not> c_is_array c) (tl (stack st))
     \<and> (c_is_array (hd (stack st)) \<longrightarrow>
          found (PeekNextLine lines i) \<and> n_indent (PeekNextLine lines i) = c_indent (hd (stack st)))
     \<and> heap_forward (length h0) (heap st)
     \<and> take (length h0) (heap st) = h0"

text \<open>After the pop phase of a line that is not blank, no context is an array.\<close>

definition objects_ok :: "'d heap \<Rightarrow> 'd parse_state \<Rightarrow> bool" where
  "objects_ok h0 st \<longleftrightarrow>
     stack st \<noteq> [] \<and> last (stack st) = root_context (length h0)
     \<and> list_all (context_ok (length h0) (heap st)) (stack st)
     \<and> list_all (\<lambda>c. \<not> c_is_array c) (stack st)
     \<and> heap_forward (length h0) (heap st)
     \<and> take (length h0) (heap st) = h0"

text \<open>
  The state after a mapping entry \<open>key:\<close> with an empty value, under the object at \<open>cur\<close>
  with the properties \<open>kvs\<close>: the child is created, set under the key, and its context
  pushed.
\<close>

definition opened_state ::
  "string list \<Rightarrow> nat \<Rightarrow> int \<Rightarrow> string \<Rightarrow> addr \<Rightarrow> (string \<times> 'd jsval) list \<Rightarrow> 'd parse_state \<Rightarrow> 'd parse_state" where
  "opened_state lines i indent key cur kvs st =
     (let next_info = PeekNextLine lines (i + 1)
      in \<lparr>stack = \<lparr>c_indent = child_indent next_info indent,
                    c_is_array = next_is_array next_info,
                    c_container = length (heap st)\<rparr> # stack st,
          heap = (heap st @ [if next_is_array next_info then JArray [] else JObject []])
                   [cur := JObject (set_property kvs key (JRef (length (heap st))))]\<rparr>)"

text \<open>The tree of one value inside the container at \<open>a\<close>, as \<open>tree_of\<close> computes it.\<close>

definition sub_tree :: "'d heap \<Rightarrow> addr \<Rightarrow> 'd jsval \<Rightarrow> 'd Value option" where
  "sub_tree h a v =
     (case v of
        JNull \<Rightarrow> Some Null
      | JBool b \<Rightarrow> Some (Bool b)
      | JInt n \<Rightarrow> Some (Int64 n)
      | JDouble d \<Rightarrow> Some (Double d)
      | JString s \<Rightarrow> Some (String s)
      | JRef a' \<Rightarrow> if a < a' \<and> a' < length h then tree_of h a' else None)"

text \<open>
  Moving a state to a caller's heap \<open>h0\<close>: the cells of the parse come after the
  cells of \<open>h0\<close>, and every handle grows by the length of \<open>h0\<close>.
\<close>

fun shift_val :: "nat \<Rightarrow> 'd jsval \<Rightarrow> 'd jsval" where
  "shift_val k (JRef a) = JRef (a + k)"
| "shift_val k v = v"

fun shift_node :: "nat \<Rightarrow> 'd jsnode \<Rightarrow> 'd jsnode" where
  "shift_node k (JObject kvs) = JObject (map (\<lambda>kv. (fst kv, shift_val k (snd kv))) kvs)"
| "shift_node k (JArray vs) = JArray (map (shift_val k) vs)"

definition shift_ctx :: "nat \<Rightarrow> Context \<Rightarrow> Context" where
  "shift_ctx k c = c\<lparr>c_container := c_container c + k\<rparr>"

definition shift_state :: "'d heap \<Rightarrow> 'd parse_state \<Rightarrow> 'd parse_state" where
  "shift_state h0 st =
     \<lparr>stack = map (shift_ctx (length h0)) (stack st),
      heap = h0 @ map (shift_node (length h0)) (heap st)\<rparr>"

text \<open>
  Line \<open>j\<close> of a parse assigns \<open>key\<close> in the object \<open>a\<close>: it is a mapping line with that
  key, and the container of its current context, an object at every line, is \<open>a\<close>.
\<close>

definition sets_key :: "'d strtod_fn \<Rightarrow> string list \<Rightarrow> 'd heap \<Rightarrow> nat \<Rightarrow> addr \<Rightarrow> string \<Rightarrow> bool" where
  "sets_key strtod lines h0 j a key \<longleftrightarrow>
     (case state_after strtod lines h0 j of
        None \<Rightarrow> False
      | Some st \<Rightarrow>
          Trim (lines ! j) \<noteq> [] \<and> hd (Trim (lines ! j)) \<noteq> CHR ''-''
          \<and> (case find_char (CHR '':'') (Trim (lines ! j)) of
                None \<Rightarrow> False
              | Some colon \<Rightarrow> Trim (take colon (Trim (lines ! j))) = key)
          \<and> c_container (hd (pop_phase (LeadingIndent (lines ! j)) (stack st))) = a)"

text \<open>The session text of the drivers example, and its lines.\<close>

definition drivers_text :: string where
  "drivers_text =
     ''Drivers:'' @ [LF] @
     ''- CarIdx: 0'' @ [LF] @
     ''  UserName: '' @ [DQUOTE] @ ''Bob'' @ [DQUOTE] @ [LF] @
     ''- CarIdx: 1'' @ [LF] @
     ''  UserName: '' @ [DQUOTE] @ ''Sam'' @ [DQUOTE]"

definition drivers_lines :: "string list" where
  "drivers_lines =
     [''Drivers:'', ''- CarIdx: 0'', ''  UserName: '' @ [DQUOTE] @ ''Bob'' @ [DQUOTE],
      ''- CarIdx: 1'', ''  UserName: '' @ [DQUOTE] @ ''Sam'' @ [DQUOTE]]"

section \<open>Properties\<close>

subsection \<open>The line splitter\<close>

lemma SplitLines_loop_acc:
  "SplitLines_loop s current lines =
     lines @ (current @ hd (SplitLines_loop s [] [])) # tl (SplitLines_loop s [] [])"
proof (induction s arbitrary: current lines)
  case Nil
  show ?case by simp
next
  case (Cons ch s)
  show ?case
  proof (cases "ch = CR")
    case True
    then show ?thesis using Cons.IH[of current lines] Cons.IH[of "[]" "[]"] by simp
  next
    case False
    note nCR = this
    show ?thesis
    proof (cases "ch = LF")
      case True
      then show ?thesis
        using nCR Cons.IH[of "[]" "lines @ [current]"] Cons.IH[of "[]" "[[]]"] by simp
    next
      case False
      then show ?thesis
        using nCR Cons.IH[of "current @ [ch]" lines] Cons.IH[of "[ch]" "[]"] by simp
    qed
  qed
qed

lemma SplitLines_loop_not_Nil: "SplitLines_loop s current lines \<noteq> []"
  by (induction s arbitrary: current lines) simp_all

lemma SplitLines_Nil: "SplitLines [] = [[]]"
  by (simp add: SplitLines_def)

lemma SplitLines_Cons:
  "SplitLines (ch # s) =
     (if ch = CR then SplitLines s
      else if ch = LF then [] # SplitLines s
      else (ch # hd (SplitLines s)) # tl (SplitLines s))"
  unfolding SplitLines_def
  using SplitLines_loop_acc[of s "[]" "[[]]"] SplitLines_loop_acc[of s "[ch]" "[]"]
    SplitLines_loop_not_Nil[of s "[]" "[]"]
  by simp

lemma SplitLines_not_Nil: "SplitLines s \<noteq> []"
  by (induction s) (simp_all add: SplitLines_Nil SplitLines_Cons)

lemma length_SplitLines: "length (SplitLines s) = Suc (count_list s LF)"
  using SplitLines_not_Nil
  by (induction s) (auto simp: SplitLines_Nil SplitLines_Cons CR_def LF_def)

lemma join_SplitLines: "join_lines (SplitLines s) = filter (\<lambda>c. c \<noteq> CR) s"
proof (induction s)
  case Nil
  show ?case by (simp add: SplitLines_Nil)
next
  case (Cons ch s)
  obtain l ls where s: "SplitLines s = l # ls"
    using SplitLines_not_Nil[of s] by (cases "SplitLines s") auto
  show ?case using Cons s by (cases ls) (auto simp: SplitLines_Cons CR_def LF_def)
qed

lemma SplitLines_chars:
  "CR \<notin> set (concat (SplitLines s)) \<and> LF \<notin> set (concat (SplitLines s))"
proof (induction s)
  case Nil
  show ?case by (simp add: SplitLines_Nil)
next
  case (Cons ch s)
  obtain l ls where s: "SplitLines s = l # ls"
    using SplitLines_not_Nil[of s] by (cases "SplitLines s") auto
  show ?case using Cons s by (auto simp: SplitLines_Cons)
qed

lemma SplitLines_no_LF: "LF \<notin> set s \<Longrightarrow> SplitLines s = [filter (\<lambda>c. c \<noteq> CR) s]"
  by (induction s) (auto simp: SplitLines_Nil SplitLines_Cons)

lemma SplitLines_append: "SplitLines (s @ LF # t) = SplitLines s @ SplitLines t"
  using SplitLines_not_Nil
  by (induction s) (auto simp: SplitLines_Nil SplitLines_Cons CR_def LF_def)

text \<open>
  Claim C3. \<open>SplitLines\<close> is a total function, so the step cannot fail. No line of the
  result holds a carriage return or a line feed; joining the lines with line feeds gives
  the input without its carriage returns, so a carriage return is dropped and never
  separates; there is one line more than there are line feeds, so every line feed ends a
  line and the fragment after the last one is always emitted, also when it is empty.
  \<open>"a\nb"\<close> splits into \<open>["a", "b"]\<close> and \<open>"a\n"\<close> into \<open>["a", ""]\<close>.
\<close>

theorem SplitLines_splits_at_line_feeds:
  "CR \<notin> set (concat (SplitLines s)) \<and> LF \<notin> set (concat (SplitLines s))
   \<and> join_lines (SplitLines s) = filter (\<lambda>c. c \<noteq> CR) s
   \<and> length (SplitLines s) = Suc (count_list s LF)
   \<and> (LF \<notin> set t \<longrightarrow> SplitLines (s @ LF # t) = SplitLines s @ [filter (\<lambda>c. c \<noteq> CR) t])
   \<and> SplitLines (''a'' @ [LF] @ ''b'') = [''a'', ''b'']
   \<and> SplitLines (''a'' @ [LF]) = [''a'', []]"
proof -
  have ex1: "SplitLines (''a'' @ [LF] @ ''b'') = [''a'', ''b'']"
    by (simp add: SplitLines_def LF_def CR_def)
  have ex2: "SplitLines (''a'' @ [LF]) = [''a'', []]"
    by (simp add: SplitLines_def LF_def CR_def)
  show ?thesis
    using SplitLines_chars[of s] join_SplitLines[of s] length_SplitLines[of s]
      SplitLines_append[of s t] SplitLines_no_LF[of t] ex1 ex2
    by simp
qed

theorem SplitLines_splits_at_line_feeds_witness:
  "LF \<notin> set [CR, CHR ''b'']
   \<and> SplitLines (''a'' @ LF # [CR, CHR ''b'']) = SplitLines ''a'' @ [''b'']"
  using SplitLines_splits_at_line_feeds[of "''a''" "[CR, CHR ''b'']"]
  by (simp add: LF_def CR_def)

subsection \<open>Scalar inference\<close>

lemma hex_prefixed_looks_hex: "hex_prefixed v = looks_hex v"
proof (cases v)
  case Nil
  then show ?thesis by (simp add: hex_prefixed_def looks_hex_def)
next
  case (Cons a w)
  then show ?thesis by (cases w) (auto simp: hex_prefixed_def looks_hex_def)
qed

lemma TryParseInt64_rule:
  "v \<noteq> [] \<Longrightarrow> TryParseInt64 v = (if looks_hex v then None else whole_text (strtoll v) v)"
  by (auto simp: TryParseInt64_def whole_text_def hex_prefixed_looks_hex split: prod.splits)

lemma TryParseDouble_rule:
  "v \<noteq> [] \<Longrightarrow>
     TryParseDouble strtod v = (if looks_hex v then None else whole_text (strtod v) v)"
  by (auto simp: TryParseDouble_def whole_text_def hex_prefixed_looks_hex split: prod.splits)

lemma inner_text: "take (length v - 2) (drop 1 v) = butlast (tl v)"
  by (cases v) (simp_all add: butlast_conv_take)

lemma strtoll_range: "strtoll v = (n, e, r) \<Longrightarrow> LLONG_MIN \<le> n \<and> n \<le> LLONG_MAX"
  by (auto simp: strtoll_def Let_def LLONG_MIN_def LLONG_MAX_def split: if_splits)

lemma TryParseInt64_range: "TryParseInt64 v = Some n \<Longrightarrow> - (2 ^ 63) \<le> n \<and> n < 2 ^ 63"
  using strtoll_range[of v]
  by (auto simp: TryParseInt64_def LLONG_MIN_def LLONG_MAX_def split: if_splits prod.splits)

lemma ParseScalarToJs_JInt_range:
  "ParseScalarToJs strtod v = JInt n \<Longrightarrow> - (2 ^ 63) \<le> n \<and> n < 2 ^ 63"
  using TryParseInt64_range[of v n]
  by (auto simp: ParseScalarToJs_def split: if_splits option.splits)

lemma ParseScalarToJs_scalar_rules:
  assumes "v \<noteq> []"
  shows "ParseScalarToJs strtod v = scalar_rules strtod v"
  unfolding ParseScalarToJs_def scalar_rules_def TryParseInt64_rule[OF assms]
    TryParseDouble_rule[OF assms] inner_text
  by (simp only: assms if_False)

text \<open>
  Claim C2. On every text that is not empty, \<open>ParseScalarToJs\<close> is the chain of the five
  rules in their order (\<open>scalar_rules\<close>): the quoted string with its inner text as it
  is, the two booleans, the base-10 parse of the entire text by \<^verbatim>\<open>strtoll\<close>, the parse
  of the entire text by \<^verbatim>\<open>strtod\<close>, both refused for a text longer than two characters
  that starts with 0x or 0X, and the text itself as a string. An integer result lies in
  the signed 64-bit range, and \<open>0x1A\<close> gives the string \<open>"0x1A"\<close> whatever \<^verbatim>\<open>strtod\<close> does.
\<close>

theorem ParseScalarToJs_follows_rules:
  assumes "v \<noteq> []"
  shows "ParseScalarToJs strtod v = scalar_rules strtod v
    \<and> (\<forall>n. ParseScalarToJs strtod v = JInt n \<longrightarrow> - (2 ^ 63) \<le> n \<and> n < 2 ^ 63)
    \<and> ParseScalarToJs strtod ''0x1A'' = JString ''0x1A''"
proof -
  have hex: "ParseScalarToJs strtod ''0x1A'' = JString ''0x1A''"
    by (simp add: ParseScalarToJs_def TryParseInt64_def TryParseDouble_def hex_prefixed_def
        DQUOTE_def)
  show ?thesis
    using ParseScalarToJs_scalar_rules[OF assms, of strtod] ParseScalarToJs_JInt_range[of strtod v] hex
    by blast
qed

theorem ParseScalarToJs_follows_rules_witness:
  "''-42'' \<noteq> [] \<and> ParseScalarToJs strtod_nothing ''-42'' = JInt (- 42)
   \<and> scalar_rules strtod_nothing ''-42'' = JInt (- 42)"
proof -
  have ne: "''-42'' \<noteq> []" by simp
  have ev: "ParseScalarToJs strtod_nothing ''-42'' = JInt (- 42)"
    by (simp add: ParseScalarToJs_def TryParseInt64_def hex_prefixed_def DQUOTE_def strtoll_def
        isspace_def is_digit_def digit_val_def LLONG_MAX_def LLONG_MIN_def)
  show ?thesis
    using ParseScalarToJs_follows_rules[OF ne, of strtod_nothing] ev by simp
qed

text \<open>
  Claim C9. The text of two double quotes is the empty string, not null: the result is
  null for the empty text and for no other text.
\<close>

theorem ParseScalarToJs_two_quotes:
  "ParseScalarToJs strtod [DQUOTE, DQUOTE] = JString []
   \<and> ParseScalarToJs strtod [] = JNull
   \<and> (ParseScalarToJs strtod v = JNull \<longleftrightarrow> v = [])"
  by (auto simp: ParseScalarToJs_def split: option.splits)

theorem ParseScalarToJs_two_quotes_witness:
  "ParseScalarToJs strtod_nothing [DQUOTE, DQUOTE] = JString []
   \<and> ParseScalarToJs strtod_nothing [DQUOTE, DQUOTE] \<noteq> JNull"
  using ParseScalarToJs_two_quotes[of strtod_nothing "[DQUOTE, DQUOTE]"]
  by simp

subsection \<open>The pop phase and the lookahead\<close>

lemma pop_phase_Nil: "pop_phase indent [] = []"
  by (subst pop_phase.simps) simp

lemma pop_phase_single: "pop_phase indent [c] = [c]"
  by (subst pop_phase.simps) simp

lemma pop_phase_Cons2:
  "pop_phase indent (c # c' # cs) =
     (if indent \<le> c_indent c then pop_phase indent (c' # cs) else c # c' # cs)"
  by (subst pop_phase.simps) simp

lemma pop_phase_suffix:
  "\<exists>pre. stk = pre @ pop_phase indent stk \<and> (\<forall>c \<in> set pre. indent \<le> c_indent c)"
proof (induction stk)
  case Nil
  show ?case by (simp add: pop_phase_Nil)
next
  case (Cons c cs)
  show ?case
  proof (cases cs)
    case Nil
    then show ?thesis by (simp add: pop_phase_single)
  next
    case (Cons c' cs')
    show ?thesis
    proof (cases "indent \<le> c_indent c")
      case True
      from Cons.IH obtain pre where "cs = pre @ pop_phase indent cs" "\<forall>c \<in> set pre. indent \<le> c_indent c"
        by blast
      then have "c # cs = (c # pre) @ pop_phase indent (c # cs) \<and> (\<forall>x \<in> set (c # pre). indent \<le> c_indent x)"
        using True Cons by (simp add: pop_phase_Cons2)
      then show ?thesis by blast
    next
      case False
      then have "c # cs = [] @ pop_phase indent (c # cs)" using Cons by (simp add: pop_phase_Cons2)
      then show ?thesis by force
    qed
  qed
qed

lemma pop_phase_not_Nil: "stk \<noteq> [] \<Longrightarrow> pop_phase indent stk \<noteq> []"
proof (induction stk)
  case Nil then show ?case by simp
next
  case (Cons c cs)
  then show ?case by (cases cs) (simp_all add: pop_phase_single pop_phase_Cons2)
qed

lemma pop_phase_stop:
  "length (pop_phase indent stk) \<le> 1 \<or> c_indent (hd (pop_phase indent stk)) < indent"
proof (induction stk)
  case Nil show ?case by (simp add: pop_phase_Nil)
next
  case (Cons c cs)
  then show ?case by (cases cs) (auto simp: pop_phase_single pop_phase_Cons2)
qed

lemma last_pop_phase: "stk \<noteq> [] \<Longrightarrow> last (pop_phase indent stk) = last stk"
proof -
  assume ne: "stk \<noteq> []"
  obtain pre where p: "stk = pre @ pop_phase indent stk" using pop_phase_suffix by blast
  have "last (pre @ pop_phase indent stk) = last (pop_phase indent stk)"
    using pop_phase_not_Nil[OF ne] by simp
  with p show ?thesis by simp
qed

lemma set_pop_phase: "set (pop_phase indent stk) \<subseteq> set stk"
proof -
  obtain pre where p: "stk = pre @ pop_phase indent stk" using pop_phase_suffix by blast
  have "set (pop_phase indent stk) \<subseteq> set (pre @ pop_phase indent stk)" by simp
  with p show ?thesis by simp
qed

lemma set_tl_pop_phase: "set (tl (pop_phase indent stk)) \<subseteq> set (tl stk)"
proof (induction stk)
  case Nil show ?case by (simp add: pop_phase_Nil)
next
  case (Cons c cs)
  show ?case
  proof (cases cs)
    case Nil then show ?thesis by (simp add: pop_phase_single)
  next
    case (Cons c' cs')
    have "set (tl (pop_phase indent cs)) \<subseteq> set (pop_phase indent cs)"
      by (cases "pop_phase indent cs") auto
    then have "set (tl (pop_phase indent cs)) \<subseteq> set cs"
      using set_pop_phase[of indent cs] by blast
    then show ?thesis using Cons by (auto simp: pop_phase_Cons2)
  qed
qed

lemma PeekNextLine_blank:
  "i < length lines \<Longrightarrow> Trim (lines ! i) = [] \<Longrightarrow> PeekNextLine lines i = PeekNextLine lines (Suc i)"
  by (subst PeekNextLine.simps) simp

lemma PeekNextLine_nonblank:
  "i < length lines \<Longrightarrow> Trim (lines ! i) \<noteq> [] \<Longrightarrow>
     PeekNextLine lines i =
       \<lparr>found = True, n_indent = LeadingIndent (lines ! i),
        starts_with_dash = (hd (Trim (lines ! i)) = CHR ''-'')\<rparr>"
  by (subst PeekNextLine.simps) (simp add: Let_def)

lemma PeekNextLine_end:
  "length lines \<le> i \<Longrightarrow> PeekNextLine lines i = \<lparr>found = False, n_indent = 0, starts_with_dash = False\<rparr>"
  by (subst PeekNextLine.simps) simp

lemma hd_pop_phase_in: "stk \<noteq> [] \<Longrightarrow> hd (pop_phase indent stk) \<in> set stk"
  using set_pop_phase[of indent stk] pop_phase_not_Nil[of stk indent]
  by (meson hd_in_set subsetD)

lemma current_not_array:
  assumes ok: "state_ok h0 lines i st" and i: "i < length lines"
    and nb: "Trim (lines ! i) \<noteq> []"
  shows "\<not> c_is_array (hd (pop_phase (LeadingIndent (lines ! i)) (stack st)))"
proof -
  let ?ind = "LeadingIndent (lines ! i)"
  obtain top rest where stk: "stack st = top # rest"
    using ok by (cases "stack st") (auto simp: state_ok_def)
  have rest_na: "\<forall>c \<in> set rest. \<not> c_is_array c"
    using ok stk by (simp add: state_ok_def list_all_iff)
  show ?thesis
  proof (cases "c_is_array top")
    case True
    have "rest \<noteq> []"
    proof
      assume "rest = []"
      then have "top = root_context (length h0)" using ok stk by (simp add: state_ok_def)
      then show False using True by (simp add: root_context_def)
    qed
    then obtain c' cs where rest: "rest = c' # cs" by (cases rest) auto
    have "c_indent top = ?ind"
      using ok stk True PeekNextLine_nonblank[OF i nb] by (simp add: state_ok_def)
    then have "pop_phase ?ind (stack st) = pop_phase ?ind rest"
      using stk rest by (simp add: pop_phase_Cons2)
    moreover have "hd (pop_phase ?ind rest) \<in> set rest"
      using hd_pop_phase_in[of rest ?ind] rest by simp
    ultimately show ?thesis using rest_na by simp
  next
    case False
    have "hd (pop_phase ?ind (stack st)) \<in> set (stack st)"
      using hd_pop_phase_in[of "stack st" ?ind] stk by simp
    then show ?thesis using False rest_na stk by auto
  qed
qed

lemma heap_forward_iff:
  "heap_forward root h \<longleftrightarrow>
     (\<forall>a. root \<le> a \<and> a < length h \<longrightarrow> list_all (ref_ok a (length h)) (node_values (h ! a)))"
  by (auto simp: heap_forward_def list_all_iff)

lemma ref_ok_mono: "ref_ok a n v \<Longrightarrow> n \<le> n' \<Longrightarrow> ref_ok a n' v"
  by (cases v) auto

lemma list_all_set_property:
  "list_all P (map snd kvs) \<Longrightarrow> P v \<Longrightarrow> list_all P (map snd (set_property kvs k v))"
  by (induction kvs k v rule: set_property.induct) auto

lemma heap_forward_append:
  assumes "heap_forward root h" and "node_values n = []"
  shows "heap_forward root (h @ [n])"
  unfolding heap_forward_iff
proof (intro allI impI)
  fix a assume a: "root \<le> a \<and> a < length (h @ [n])"
  show "list_all (ref_ok a (length (h @ [n]))) (node_values ((h @ [n]) ! a))"
  proof (cases "a < length h")
    case True
    then have "list_all (ref_ok a (length h)) (node_values (h ! a))"
      using assms(1) a by (simp add: heap_forward_iff)
    then have "list_all (ref_ok a (length (h @ [n]))) (node_values (h ! a))"
      by (auto simp: list_all_iff intro: ref_ok_mono)
    then show ?thesis using True by (simp add: nth_append)
  next
    case False
    then have "a = length h" using a by simp
    then show ?thesis using assms(2) by simp
  qed
qed

lemma heap_forward_set_property:
  assumes fw: "heap_forward root h" and cur: "cur < length h" and node: "h ! cur = JObject kvs"
    and v: "ref_ok cur (length h) v"
  shows "heap_forward root (h[cur := JObject (set_property kvs key v)])"
  unfolding heap_forward_iff
proof (intro allI impI)
  fix a assume a: "root \<le> a \<and> a < length (h[cur := JObject (set_property kvs key v)])"
  then have old: "list_all (ref_ok a (length h)) (node_values (h ! a))"
    using fw by (simp add: heap_forward_iff)
  show "list_all (ref_ok a (length (h[cur := JObject (set_property kvs key v)])))
          (node_values (h[cur := JObject (set_property kvs key v)] ! a))"
  proof (cases "a = cur")
    case True
    then show ?thesis using old node v cur by (simp add: list_all_set_property)
  next
    case False
    then show ?thesis using old by simp
  qed
qed

lemma context_ok_heap:
  assumes "context_ok root h c" and "length h \<le> length h'"
    and "is_array_node (h' ! c_container c) = is_array_node (h ! c_container c)"
  shows "context_ok root h' c"
  using assms by (auto simp: context_ok_def)

subsection \<open>One turn of the loop keeps the invariant\<close>

lemma object_of_context:
  "context_ok root h c \<Longrightarrow> \<not> c_is_array c \<Longrightarrow> \<exists>kvs. h ! c_container c = JObject kvs"
  by (cases "h ! c_container c") (auto simp: context_ok_def)

lemma ParseScalarToJs_ref_ok: "ref_ok a n (ParseScalarToJs strtod v)"
  by (auto simp: ParseScalarToJs_def split: option.splits)

lemma process_line_blank:
  "Trim (lines ! i) = [] \<Longrightarrow> process_line strtod lines i st = Some st"
  by (simp add: process_line_def)

lemma process_line_nonblank:
  assumes ok: "state_ok h0 lines i st" and i: "i < length lines"
    and nb: "Trim (lines ! i) \<noteq> []"
  shows "process_line strtod lines i st =
     (if hd (Trim (lines ! i)) = CHR ''-''
      then Some (st\<lparr>stack := pop_phase (LeadingIndent (lines ! i)) (stack st)\<rparr>)
      else mapping_entry strtod lines i (LeadingIndent (lines ! i)) (Trim (lines ! i))
             (hd (pop_phase (LeadingIndent (lines ! i)) (stack st)))
             (st\<lparr>stack := pop_phase (LeadingIndent (lines ! i)) (stack st)\<rparr>))"
proof -
  let ?popped = "pop_phase (LeadingIndent (lines ! i)) (stack st)"
  have "stack st \<noteq> []" using ok by (simp add: state_ok_def)
  then obtain cur rest where p: "?popped = cur # rest"
    using pop_phase_not_Nil[of "stack st" "LeadingIndent (lines ! i)"] by (cases ?popped) auto
  have na: "\<not> c_is_array cur" using current_not_array[OF ok i nb] p by simp
  show ?thesis using nb p na by (simp add: process_line_def Let_def)
qed

lemma mapping_entry_no_colon:
  "find_char (CHR '':'') trimmed = None \<Longrightarrow>
     mapping_entry strtod lines i indent trimmed current st = Some st"
  by (simp add: mapping_entry_def)

lemma mapping_entry_open:
  assumes "find_char (CHR '':'') trimmed = Some colon"
    and "Trim (drop (colon + 1) trimmed) = []"
    and "c_container current < length (heap st)"
    and "heap st ! c_container current = JObject kvs"
  shows "mapping_entry strtod lines i indent trimmed current st =
     Some (opened_state lines i indent (Trim (take colon trimmed)) (c_container current) kvs st)"
  using assms
  by (simp add: mapping_entry_def opened_state_def Let_def create_child_def napi_create_array_def
      napi_create_object_def SetObjectProperty_def nth_append)

lemma mapping_entry_scalar:
  assumes "find_char (CHR '':'') trimmed = Some colon"
    and "Trim (drop (colon + 1) trimmed) \<noteq> []"
    and "c_container current < length (heap st)"
    and "heap st ! c_container current = JObject kvs"
  shows "mapping_entry strtod lines i indent trimmed current st =
     Some (st\<lparr>heap := (heap st)[c_container current :=
        JObject (set_property kvs (Trim (take colon trimmed))
                   (ParseScalarToJs strtod (Trim (drop (colon + 1) trimmed))))]\<rparr>)"
  using assms
  by (simp add: mapping_entry_def Let_def SetObjectProperty_def)

lemma objects_ok_state_ok: "objects_ok h0 st \<Longrightarrow> state_ok h0 lines j st"
  by (cases "stack st") (auto simp: objects_ok_def state_ok_def)

lemma state_ok_blank:
  "state_ok h0 lines i st \<Longrightarrow> i < length lines \<Longrightarrow> Trim (lines ! i) = [] \<Longrightarrow>
     state_ok h0 lines (Suc i) st"
  using PeekNextLine_blank[of i lines] by (simp add: state_ok_def)

lemma objects_ok_popped:
  assumes ok: "state_ok h0 lines i st" and i: "i < length lines"
    and nb: "Trim (lines ! i) \<noteq> []"
  shows "objects_ok h0 (st\<lparr>stack := pop_phase (LeadingIndent (lines ! i)) (stack st)\<rparr>)"
proof -
  let ?popped = "pop_phase (LeadingIndent (lines ! i)) (stack st)"
  have ne: "stack st \<noteq> []" using ok by (simp add: state_ok_def)
  have p_ne: "?popped \<noteq> []" using pop_phase_not_Nil[OF ne] .
  have last: "last ?popped = root_context (length h0)"
    using last_pop_phase[OF ne] ok by (simp add: state_ok_def)
  have ctx: "list_all (context_ok (length h0) (heap st)) ?popped"
    using ok set_pop_phase[of "LeadingIndent (lines ! i)" "stack st"]
    by (auto simp: state_ok_def list_all_iff)
  have hd_na: "\<not> c_is_array (hd ?popped)" using current_not_array[OF ok i nb] .
  have tl_na: "list_all (\<lambda>c. \<not> c_is_array c) (tl ?popped)"
    using ok set_tl_pop_phase[of "LeadingIndent (lines ! i)" "stack st"]
    by (auto simp: state_ok_def list_all_iff)
  have na: "list_all (\<lambda>c. \<not> c_is_array c) ?popped"
    using p_ne hd_na tl_na by (cases ?popped) auto
  show ?thesis
    using p_ne last ctx na ok by (simp add: objects_ok_def state_ok_def)
qed

lemma root_in_heap: "objects_ok h0 st \<Longrightarrow> length h0 < length (heap st)"
proof -
  assume ok: "objects_ok h0 st"
  then have ne: "stack st \<noteq> []" by (simp add: objects_ok_def)
  have "last (stack st) \<in> set (stack st)" using last_in_set[OF ne] .
  moreover have "\<forall>c \<in> set (stack st). context_ok (length h0) (heap st) c"
    using ok by (simp add: objects_ok_def list_all_iff)
  ultimately have "context_ok (length h0) (heap st) (last (stack st))" by blast
  moreover have "last (stack st) = root_context (length h0)" using ok by (simp add: objects_ok_def)
  ultimately show ?thesis by (simp add: context_ok_def root_context_def)
qed

lemma objects_ok_scalar:
  assumes ok: "objects_ok h0 st" and cur: "cur \<in> set (stack st)"
    and node: "heap st ! c_container cur = JObject kvs"
    and v: "ref_ok (c_container cur) (length (heap st)) v"
  shows "objects_ok h0 (st\<lparr>heap := (heap st)[c_container cur := JObject (set_property kvs key v)]\<rparr>)"
proof -
  let ?h' = "(heap st)[c_container cur := JObject (set_property kvs key v)]"
  have cok: "context_ok (length h0) (heap st) cur"
    using ok cur by (auto simp: objects_ok_def list_all_iff)
  then have bounds: "length h0 \<le> c_container cur" "c_container cur < length (heap st)"
    by (auto simp: context_ok_def)
  have ctx: "list_all (context_ok (length h0) ?h') (stack st)"
    unfolding list_all_iff
  proof
    fix c assume c: "c \<in> set (stack st)"
    then have old: "context_ok (length h0) (heap st) c"
      using ok by (auto simp: objects_ok_def list_all_iff)
    have "is_array_node (?h' ! c_container c) = is_array_node (heap st ! c_container c)"
      using node bounds by (cases "c_container c = c_container cur") auto
    then show "context_ok (length h0) ?h' c" using old by (auto intro: context_ok_heap)
  qed
  have fw: "heap_forward (length h0) ?h'"
    using heap_forward_set_property[OF _ bounds(2) node v] ok by (simp add: objects_ok_def)
  have tk: "take (length h0) ?h' = h0" using ok bounds by (simp add: objects_ok_def)
  show ?thesis using ok ctx fw tk by (simp add: objects_ok_def)
qed

lemma state_ok_opened:
  assumes ok: "objects_ok h0 st" and cur: "cur \<in> set (stack st)"
    and node: "heap st ! c_container cur = JObject kvs"
  shows "state_ok h0 lines (Suc i) (opened_state lines i indent key (c_container cur) kvs st)"
proof -
  let ?next = "PeekNextLine lines (i + 1)"
  let ?n = "if next_is_array ?next then JArray [] else JObject []"
  let ?child = "\<lparr>c_indent = child_indent ?next indent, c_is_array = next_is_array ?next,
                 c_container = length (heap st)\<rparr>"
  let ?h1 = "heap st @ [?n]"
  let ?h' = "?h1[c_container cur := JObject (set_property kvs key (JRef (length (heap st))))]"
  have st': "opened_state lines i indent key (c_container cur) kvs st = \<lparr>stack = ?child # stack st, heap = ?h'\<rparr>"
    by (simp add: opened_state_def Let_def)
  have cok: "context_ok (length h0) (heap st) cur"
    using ok cur by (auto simp: objects_ok_def list_all_iff)
  then have bounds: "length h0 \<le> c_container cur" "c_container cur < length (heap st)"
    by (auto simp: context_ok_def)
  have ne: "stack st \<noteq> []" using ok by (simp add: objects_ok_def)
  have ctx_old: "list_all (context_ok (length h0) ?h') (stack st)"
    unfolding list_all_iff
  proof
    fix c assume c: "c \<in> set (stack st)"
    then have old: "context_ok (length h0) (heap st) c"
      using ok by (auto simp: objects_ok_def list_all_iff)
    then have cb: "c_container c < length (heap st)" by (simp add: context_ok_def)
    have "is_array_node (?h' ! c_container c) = is_array_node (heap st ! c_container c)"
      using node bounds cb by (cases "c_container c = c_container cur") (auto simp: nth_append)
    then show "context_ok (length h0) ?h' c" using old by (auto intro: context_ok_heap)
  qed
  have ctx_child: "context_ok (length h0) ?h' ?child"
    using bounds by (auto simp: context_ok_def nth_append)
  have fw1: "heap_forward (length h0) ?h1"
    using heap_forward_append[of "length h0" "heap st" ?n] ok by (simp add: objects_ok_def)
  have node1: "?h1 ! c_container cur = JObject kvs" using node bounds by (simp add: nth_append)
  have fw: "heap_forward (length h0) ?h'"
    using heap_forward_set_property[OF fw1 _ node1, of "JRef (length (heap st))" key] bounds by simp
  have tk: "take (length h0) ?h' = h0" using ok bounds by (simp add: objects_ok_def)
  have peek: "next_is_array ?next \<longrightarrow> found (PeekNextLine lines (Suc i))
      \<and> n_indent (PeekNextLine lines (Suc i)) = child_indent ?next indent"
    by (simp add: next_is_array_def child_indent_def)
  show ?thesis
    unfolding st' using ok ne ctx_old ctx_child fw tk peek
    by (simp add: state_ok_def objects_ok_def)
qed

lemma current_object:
  assumes ok: "state_ok h0 lines i st" and i: "i < length lines"
    and nb: "Trim (lines ! i) \<noteq> []"
  shows "hd (pop_phase (LeadingIndent (lines ! i)) (stack st))
           \<in> set (pop_phase (LeadingIndent (lines ! i)) (stack st))
         \<and> (\<exists>kvs. heap st ! c_container (hd (pop_phase (LeadingIndent (lines ! i)) (stack st)))
               = JObject kvs)"
proof -
  let ?popped = "pop_phase (LeadingIndent (lines ! i)) (stack st)"
  have pok: "objects_ok h0 (st\<lparr>stack := ?popped\<rparr>)" using objects_ok_popped[OF ok i nb] .
  then have ne: "?popped \<noteq> []" by (simp add: objects_ok_def)
  then have in_set: "hd ?popped \<in> set ?popped" by simp
  then have "context_ok (length h0) (heap st) (hd ?popped)" "\<not> c_is_array (hd ?popped)"
    using pok by (auto simp: objects_ok_def list_all_iff)
  then show ?thesis using in_set object_of_context by blast
qed

lemma process_line_ok:
  assumes ok: "state_ok h0 lines i st" and i: "i < length lines"
  shows "\<exists>st'. process_line strtod lines i st = Some st' \<and> state_ok h0 lines (Suc i) st'"
proof (cases "Trim (lines ! i) = []")
  case True
  then show ?thesis using state_ok_blank[OF ok i] by (simp add: process_line_blank)
next
  case nb: False
  let ?ind = "LeadingIndent (lines ! i)"
  let ?trimmed = "Trim (lines ! i)"
  let ?popped = "pop_phase ?ind (stack st)"
  let ?st1 = "st\<lparr>stack := ?popped\<rparr>"
  let ?cur = "hd ?popped"
  have pok: "objects_ok h0 ?st1" using objects_ok_popped[OF ok i nb] .
  have step: "process_line strtod lines i st =
     (if hd ?trimmed = CHR ''-'' then Some ?st1
      else mapping_entry strtod lines i ?ind ?trimmed ?cur ?st1)"
    using process_line_nonblank[OF ok i nb] .
  obtain kvs where cur_in: "?cur \<in> set (stack ?st1)" and node: "heap ?st1 ! c_container ?cur = JObject kvs"
    using current_object[OF ok i nb] by auto
  have cur_lt: "c_container ?cur < length (heap ?st1)"
    using pok cur_in by (auto simp: objects_ok_def list_all_iff context_ok_def)
  show ?thesis
  proof (cases "hd ?trimmed = CHR ''-''")
    case True
    then show ?thesis using step objects_ok_state_ok[OF pok] by simp
  next
    case nd: False
    show ?thesis
    proof (cases "find_char (CHR '':'') ?trimmed")
      case None
      then show ?thesis using step nd objects_ok_state_ok[OF pok] by (simp add: mapping_entry_no_colon)
    next
      case (Some colon)
      show ?thesis
      proof (cases "Trim (drop (colon + 1) ?trimmed) = []")
        case True
        have "mapping_entry strtod lines i ?ind ?trimmed ?cur ?st1 =
            Some (opened_state lines i ?ind (Trim (take colon ?trimmed)) (c_container ?cur) kvs ?st1)"
          using mapping_entry_open[OF Some True cur_lt node] .
        then show ?thesis using step nd state_ok_opened[OF pok cur_in node] by simp
      next
        case False
        have "mapping_entry strtod lines i ?ind ?trimmed ?cur ?st1 =
            Some (?st1\<lparr>heap := (heap ?st1)[c_container ?cur :=
              JObject (set_property kvs (Trim (take colon ?trimmed))
                   (ParseScalarToJs strtod (Trim (drop (colon + 1) ?trimmed))))]\<rparr>)"
          using mapping_entry_scalar[OF Some False cur_lt node] .
        then show ?thesis
          using step nd objects_ok_state_ok[OF objects_ok_scalar[OF pok cur_in node ParseScalarToJs_ref_ok]]
          by simp
      qed
    qed
  qed
qed

lemma state_ok_initial: "state_ok h0 lines 0 (initial_state h0)"
  by (simp add: state_ok_def initial_state_def napi_create_object_def root_context_def
      context_ok_def heap_forward_def)

lemma state_ok_past_end:
  "state_ok h0 lines n st \<Longrightarrow> length lines \<le> n \<Longrightarrow> state_ok h0 lines (Suc n) st"
  using PeekNextLine_end[of lines n] by (simp add: state_ok_def)

lemma state_after_ok: "\<exists>st. state_after strtod lines h0 n = Some st \<and> state_ok h0 lines n st"
proof (induction n)
  case 0
  show ?case using state_ok_initial by simp
next
  case (Suc n)
  then obtain st where st: "state_after strtod lines h0 n = Some st" "state_ok h0 lines n st"
    by blast
  show ?case
  proof (cases "n < length lines")
    case True
    then show ?thesis using st process_line_ok[OF st(2) True, of strtod] by simp
  next
    case False
    then show ?thesis using st state_ok_past_end[OF st(2)] by simp
  qed
qed

lemma parse_loop_state_after:
  "state_after strtod lines h0 i = Some st \<Longrightarrow> i \<le> length lines \<Longrightarrow>
     parse_loop strtod lines i st = state_after strtod lines h0 (length lines)"
proof (induction "length lines - i" arbitrary: i st)
  case 0
  then have "i = length lines" by simp
  then show ?case using 0 by (subst parse_loop.simps) simp
next
  case (Suc k)
  then have lt: "i < length lines" by simp
  obtain st' where st': "state_after strtod lines h0 (Suc i) = Some st'"
    using state_after_ok by blast
  then have pl: "process_line strtod lines i st = Some st'" using Suc.prems lt by simp
  have "parse_loop strtod lines (Suc i) st' = state_after strtod lines h0 (length lines)"
    using Suc.hyps(1)[of "Suc i" st'] Suc.hyps(2) st' lt by simp
  then show ?case using pl lt by (subst parse_loop.simps) simp
qed

lemma parse_loop_initial:
  "parse_loop strtod lines 0 (initial_state h0) = state_after strtod lines h0 (length lines)"
  using parse_loop_state_after[of strtod lines h0 0 "initial_state h0"] by simp

subsection \<open>The result of a parse\<close>

lemma find_char_None: "find_char c s = None \<longleftrightarrow> c \<notin> set s"
  by (induction s) auto

lemma map_of_set_property: "map_of (set_property kvs k v) k = Some v"
  by (induction kvs k v rule: set_property.induct) auto

lemma all_some_map:
  "(\<And>x. x \<in> set xs \<Longrightarrow> \<exists>y. f x = Some y) \<Longrightarrow>
     \<exists>ys. all_some (map f xs) = Some ys \<and> length ys = length xs"
proof (induction xs)
  case Nil
  show ?case by simp
next
  case (Cons x xs)
  then obtain y where y: "f x = Some y" by auto
  from Cons obtain ys where "all_some (map f xs) = Some ys \<and> length ys = length xs" by auto
  then show ?case using y by simp
qed

lemma tree_of_unfold:
  "tree_of h a =
     (if a < length h then
        (case h ! a of
           JObject kvs \<Rightarrow>
             map_option (\<lambda>ts. Object (zip (map fst kvs) ts))
               (all_some (map (\<lambda>kv. sub_tree h a (snd kv)) kvs))
         | JArray vs \<Rightarrow> map_option Array (all_some (map (sub_tree h a) vs)))
      else None)"
  unfolding sub_tree_def[abs_def]
  by (subst tree_of.simps) (simp add: Let_def)

lemma tree_of_total:
  "heap_forward root h \<Longrightarrow> root \<le> a \<Longrightarrow> a < length h \<Longrightarrow>
     \<exists>t. tree_of h a = Some t \<and> (\<forall>kvs. h ! a = JObject kvs \<longrightarrow> (\<exists>ts. t = Object ts))"
proof (induction "length h - a" arbitrary: a rule: less_induct)
  case less
  have vals: "list_all (ref_ok a (length h)) (node_values (h ! a))"
    using less.prems by (simp add: heap_forward_iff)
  have sub: "\<exists>t. sub_tree h a v = Some t" if v: "v \<in> set (node_values (h ! a))" for v
  proof (cases v)
    case (JRef a')
    then have r: "a < a'" "a' < length h" using vals v by (auto simp: list_all_iff)
    then have "\<exists>t. tree_of h a' = Some t"
      using less.hyps[of a'] less.prems by force
    then show ?thesis using JRef r by (simp add: sub_tree_def)
  qed (simp_all add: sub_tree_def)
  show ?case
  proof (cases "h ! a")
    case (JObject kvs)
    have "\<exists>ys. all_some (map (\<lambda>kv. sub_tree h a (snd kv)) kvs) = Some ys \<and> length ys = length kvs"
      using sub JObject by (intro all_some_map) auto
    then show ?thesis using JObject less.prems by (subst tree_of_unfold) auto
  next
    case (JArray vs)
    have "\<exists>ys. all_some (map (sub_tree h a) vs) = Some ys \<and> length ys = length vs"
      using sub JArray by (intro all_some_map) auto
    then show ?thesis using JArray less.prems by (subst tree_of_unfold) auto
  qed
qed

lemma state_after_blank:
  assumes "\<forall>l \<in> set lines. Trim l = []"
  shows "state_after strtod lines h0 n = Some (initial_state h0)"
proof (induction n)
  case 0
  show ?case by simp
next
  case (Suc n)
  then show ?case using assms by (auto simp: process_line_blank)
qed

lemma ParseSessionYamlToJs_state_after:
  "ParseSessionYamlToJs strtod h0 session =
     map_option (\<lambda>st. (heap st, length h0))
       (state_after strtod (SplitLines session) h0 (length (SplitLines session)))"
  by (simp add: ParseSessionYamlToJs_def parse_loop_initial Let_def split: option.splits)

lemma root_object:
  assumes "state_ok h0 lines n st"
  shows "length h0 < length (heap st) \<and> (\<exists>kvs. heap st ! length h0 = JObject kvs)"
proof -
  have ne: "stack st \<noteq> []" using assms by (simp add: state_ok_def)
  have "last (stack st) \<in> set (stack st)" using last_in_set[OF ne] .
  moreover have "\<forall>c \<in> set (stack st). context_ok (length h0) (heap st) c"
    using assms by (simp add: state_ok_def list_all_iff)
  ultimately have "context_ok (length h0) (heap st) (last (stack st))" by blast
  moreover have "last (stack st) = root_context (length h0)" using assms by (simp add: state_ok_def)
  ultimately have c: "context_ok (length h0) (heap st) (root_context (length h0))" by simp
  then have "length h0 < length (heap st)" by (simp add: context_ok_def root_context_def)
  moreover have "\<exists>kvs. heap st ! length h0 = JObject kvs"
    using object_of_context[OF c] by (simp add: root_context_def)
  ultimately show ?thesis by simp
qed

text \<open>
  Claim C1. For every session text and every heap of the caller, the parse returns,
  without an error, the handle of an object (the cell it created first), and the tree
  of that handle is an \<open>Object\<close>. When every line of the text is blank, the empty text
  included, that object has no property.
\<close>

theorem parse_root_is_object:
  "\<exists>h kvs ts. ParseSessionYamlToJs strtod h0 session = Some (h, length h0)
      \<and> length h0 < length h \<and> h ! length h0 = JObject kvs
      \<and> ParseSessionYamlToTree strtod h0 session = Some (Object ts)
      \<and> ((\<forall>l \<in> set (SplitLines session). Trim l = []) \<longrightarrow> kvs = [] \<and> ts = [])"
proof -
  let ?lines = "SplitLines session"
  obtain st where st: "state_after strtod ?lines h0 (length ?lines) = Some st"
      and ok: "state_ok h0 ?lines (length ?lines) st"
    using state_after_ok by blast
  have js: "ParseSessionYamlToJs strtod h0 session = Some (heap st, length h0)"
    using st by (simp add: ParseSessionYamlToJs_state_after)
  obtain kvs where root: "length h0 < length (heap st)" "heap st ! length h0 = JObject kvs"
    using root_object[OF ok] by blast
  have fw: "heap_forward (length h0) (heap st)" using ok by (simp add: state_ok_def)
  obtain ts where tree: "tree_of (heap st) (length h0) = Some (Object ts)"
    using tree_of_total[OF fw _ root(1)] root(2) by auto
  have tr: "ParseSessionYamlToTree strtod h0 session = Some (Object ts)"
    using js tree by (simp add: ParseSessionYamlToTree_def)
  have blank: "kvs = [] \<and> ts = []" if b: "\<forall>l \<in> set ?lines. Trim l = []"
  proof -
    have "st = initial_state h0" using state_after_blank[OF b, of strtod h0 "length ?lines"] st by simp
    then have h: "heap st = h0 @ [JObject []]" by (simp add: initial_state_def napi_create_object_def)
    then have k: "kvs = []" using root(2) by simp
    have "tree_of (heap st) (length h0) = Some (Object [])"
      unfolding h by (subst tree_of_unfold) simp
    then show ?thesis using k tree by simp
  qed
  show ?thesis using js root tr blank by blast
qed

theorem parse_root_is_object_witness:
  "map Trim (SplitLines [CHR '' '', CR, LF, TAB]) = [[], []]
   \<and> (\<exists>h. ParseSessionYamlToJs strtod_nothing [] [CHR '' '', CR, LF, TAB] = Some (h, 0)
         \<and> h ! 0 = JObject [])
   \<and> ParseSessionYamlToTree strtod_nothing [] [CHR '' '', CR, LF, TAB] = Some (Object [])"
proof -
  have sp: "SplitLines [CHR '' '', CR, LF, TAB] = ['' '', [TAB]]"
    by (simp add: SplitLines_def CR_def LF_def TAB_def)
  have bl: "\<forall>l \<in> set (SplitLines [CHR '' '', CR, LF, TAB]). Trim l = []"
    unfolding sp by (simp add: Trim_def isspace_def TAB_def)
  have tr: "map Trim (SplitLines [CHR '' '', CR, LF, TAB]) = [[], []]"
    unfolding sp by (simp add: Trim_def isspace_def TAB_def)
  show ?thesis
    using parse_root_is_object[of strtod_nothing "[]" "[CHR '' '', CR, LF, TAB]"] bl tr
    by auto
qed

text \<open>
  Claim C4. The loop starts with the one root context (indent -1, not an array, the root
  container). The pop phase removes a prefix of contexts whose indent is at least the
  indentation of the line, and stops when one context is left or the top indent is
  smaller; it never empties a stack and keeps its bottom. After any number of turns the
  stack is not empty and its bottom is the root context, and a line that is not blank
  leaves the stack of its pop phase with at most pushed contexts on top.
\<close>

theorem context_stack_keeps_root:
  "stack (initial_state h0) = [\<lparr>c_indent = - 1, c_is_array = False, c_container = length h0\<rparr>]
   \<and> (\<exists>popped. stk = popped @ pop_phase indent stk \<and> (\<forall>c \<in> set popped. indent \<le> c_indent c))
   \<and> (length (pop_phase indent stk) \<le> 1 \<or> c_indent (hd (pop_phase indent stk)) < indent)
   \<and> (stk \<noteq> [] \<longrightarrow> pop_phase indent stk \<noteq> [] \<and> last (pop_phase indent stk) = last stk)
   \<and> (\<exists>st. state_after strtod lines h0 n = Some st \<and> stack st \<noteq> []
         \<and> last (stack st) = \<lparr>c_indent = - 1, c_is_array = False, c_container = length h0\<rparr>
         \<and> (n < length lines \<and> Trim (lines ! n) \<noteq> [] \<longrightarrow>
              (\<exists>st' pushed. process_line strtod lines n st = Some st'
                 \<and> stack st' = pushed @ pop_phase (LeadingIndent (lines ! n)) (stack st))))"
proof -
  have init: "stack (initial_state h0) = [\<lparr>c_indent = - 1, c_is_array = False, c_container = length h0\<rparr>]"
    by (simp add: initial_state_def napi_create_object_def root_context_def)
  obtain st where st: "state_after strtod lines h0 n = Some st" and ok: "state_ok h0 lines n st"
    using state_after_ok by blast
  have ne: "stack st \<noteq> []" and last: "last (stack st) = root_context (length h0)"
    using ok by (simp_all add: state_ok_def)
  have step: "\<exists>st' pushed. process_line strtod lines n st = Some st'
                 \<and> stack st' = pushed @ pop_phase (LeadingIndent (lines ! n)) (stack st)"
    if n: "n < length lines" and nb: "Trim (lines ! n) \<noteq> []"
  proof -
    let ?ind = "LeadingIndent (lines ! n)"
    let ?trimmed = "Trim (lines ! n)"
    let ?popped = "pop_phase ?ind (stack st)"
    let ?st1 = "st\<lparr>stack := ?popped\<rparr>"
    let ?cur = "hd ?popped"
    have pl: "process_line strtod lines n st =
       (if hd ?trimmed = CHR ''-'' then Some ?st1
        else mapping_entry strtod lines n ?ind ?trimmed ?cur ?st1)"
      using process_line_nonblank[OF ok n nb] .
    have pok: "objects_ok h0 ?st1" using objects_ok_popped[OF ok n nb] .
    obtain kvs where cur_in: "?cur \<in> set (stack ?st1)"
        and node: "heap ?st1 ! c_container ?cur = JObject kvs"
      using current_object[OF ok n nb] by auto
    have cur_lt: "c_container ?cur < length (heap ?st1)"
      using pok cur_in by (auto simp: objects_ok_def list_all_iff context_ok_def)
    show ?thesis
    proof (cases "hd ?trimmed = CHR ''-''")
      case True
      then show ?thesis using pl by simp
    next
      case nd: False
      show ?thesis
      proof (cases "find_char (CHR '':'') ?trimmed")
        case None
        then show ?thesis using pl nd by (simp add: mapping_entry_no_colon)
      next
        case (Some colon)
        show ?thesis
        proof (cases "Trim (drop (colon + 1) ?trimmed) = []")
          case True
          show ?thesis
            using pl nd mapping_entry_open[OF Some True cur_lt node, of strtod lines n ?ind]
            by (simp add: opened_state_def Let_def)
        next
          case False
          show ?thesis
            using pl nd mapping_entry_scalar[OF Some False cur_lt node, of strtod lines n ?ind]
            by simp
        qed
      qed
    qed
  qed
  show ?thesis
    using init pop_phase_suffix[of stk indent] pop_phase_stop[of indent stk]
      pop_phase_not_Nil[of stk indent] last_pop_phase[of stk indent] st ne last step
    by (simp add: root_context_def)
qed

theorem context_stack_keeps_root_witness:
  "[\<lparr>c_indent = 2, c_is_array = False, c_container = 1\<rparr>,
    \<lparr>c_indent = - 1, c_is_array = False, c_container = 0\<rparr>] \<noteq> []
   \<and> pop_phase 2 [\<lparr>c_indent = 2, c_is_array = False, c_container = 1\<rparr>,
                   \<lparr>c_indent = - 1, c_is_array = False, c_container = 0\<rparr>]
       = [\<lparr>c_indent = - 1, c_is_array = False, c_container = 0\<rparr>]
   \<and> (1::nat) < length [''a:'', ''  b: 1''] \<and> Trim ([''a:'', ''  b: 1''] ! 1) \<noteq> []
   \<and> (\<exists>st st' pushed. state_after strtod_nothing [''a:'', ''  b: 1''] [] 1 = Some st
          \<and> stack st \<noteq> []
          \<and> process_line strtod_nothing [''a:'', ''  b: 1''] 1 st = Some st'
          \<and> stack st' = pushed @ pop_phase (LeadingIndent ([''a:'', ''  b: 1''] ! 1)) (stack st))"
proof -
  have p: "pop_phase 2 [\<lparr>c_indent = 2, c_is_array = False, c_container = 1\<rparr>,
                   \<lparr>c_indent = - 1, c_is_array = False, c_container = 0\<rparr>]
       = [\<lparr>c_indent = - 1, c_is_array = False, c_container = 0\<rparr>]"
    by (simp add: pop_phase_Cons2 pop_phase_single)
  have nb: "Trim ([''a:'', ''  b: 1''] ! 1) \<noteq> []"
    by (simp add: Trim_def isspace_def)
  show ?thesis
    using context_stack_keeps_root[of "[]" "[\<lparr>c_indent = 2, c_is_array = False, c_container = 1\<rparr>,
                   \<lparr>c_indent = - 1, c_is_array = False, c_container = 0\<rparr>]" 2
                strtod_nothing "[''a:'', ''  b: 1'']" 1] p nb
    by auto
qed

text \<open>
  Claim C5. A line that does not fit is skipped: an item line (its trimmed content starts
  with a dash) when the container of the current context is not an array, another line
  when that container is an array, or a line without dash and without colon. The turn
  returns without error, the heap is the same, and the stack is the one the pop phase
  left. \<open>current\<close> is the top context after the pop phase, whose flag agrees with its
  container.
\<close>

theorem mismatched_line_is_skipped:
  assumes "stack st \<noteq> []" and "Trim (lines ! i) \<noteq> []"
    and "current = hd (pop_phase (LeadingIndent (lines ! i)) (stack st))"
    and "c_is_array current \<longleftrightarrow> is_array_node (heap st ! c_container current)"
    and "(hd (Trim (lines ! i)) = CHR ''-'' \<and> \<not> is_array_node (heap st ! c_container current))
         \<or> (hd (Trim (lines ! i)) \<noteq> CHR ''-'' \<and> is_array_node (heap st ! c_container current))
         \<or> (hd (Trim (lines ! i)) \<noteq> CHR ''-'' \<and> CHR '':'' \<notin> set (Trim (lines ! i)))"
  shows "process_line strtod lines i st =
           Some (st\<lparr>stack := pop_phase (LeadingIndent (lines ! i)) (stack st)\<rparr>)"
proof -
  let ?popped = "pop_phase (LeadingIndent (lines ! i)) (stack st)"
  obtain cur rest where p: "?popped = cur # rest"
    using pop_phase_not_Nil[OF assms(1), of "LeadingIndent (lines ! i)"] by (cases ?popped) auto
  then have cur: "current = cur" using assms(3) by simp
  have nc: "CHR '':'' \<notin> set (Trim (lines ! i)) \<Longrightarrow>
      mapping_entry strtod lines i (LeadingIndent (lines ! i)) (Trim (lines ! i)) cur
        (st\<lparr>stack := ?popped\<rparr>) = Some (st\<lparr>stack := ?popped\<rparr>)"
    by (simp add: mapping_entry_no_colon find_char_None)
  show ?thesis
    using assms(2,4,5) p cur nc by (auto simp: process_line_def Let_def)
qed

theorem mismatched_line_is_skipped_witness:
  "process_line strtod_nothing [''- x''] 0
      \<lparr>stack = [\<lparr>c_indent = - 1, c_is_array = False, c_container = 0\<rparr>], heap = [JObject []]\<rparr>
     = Some \<lparr>stack = [\<lparr>c_indent = - 1, c_is_array = False, c_container = 0\<rparr>], heap = [JObject []]\<rparr>
   \<and> process_line strtod_nothing [''  b: 1''] 0
      \<lparr>stack = [\<lparr>c_indent = 0, c_is_array = True, c_container = Suc 0\<rparr>,
                \<lparr>c_indent = - 1, c_is_array = False, c_container = 0\<rparr>],
       heap = [JObject [(''a'', JRef (Suc 0))], JArray []]\<rparr>
     = Some \<lparr>stack = [\<lparr>c_indent = 0, c_is_array = True, c_container = Suc 0\<rparr>,
                \<lparr>c_indent = - 1, c_is_array = False, c_container = 0\<rparr>],
       heap = [JObject [(''a'', JRef (Suc 0))], JArray []]\<rparr>
   \<and> process_line strtod_nothing ['' stray''] 0
      \<lparr>stack = [\<lparr>c_indent = 2, c_is_array = False, c_container = Suc 0\<rparr>,
                \<lparr>c_indent = - 1, c_is_array = False, c_container = 0\<rparr>],
       heap = [JObject [(''a'', JRef (Suc 0))], JObject []]\<rparr>
     = Some \<lparr>stack = [\<lparr>c_indent = - 1, c_is_array = False, c_container = 0\<rparr>],
       heap = [JObject [(''a'', JRef (Suc 0))], JObject []]\<rparr>"
proof -
  let ?root = "\<lparr>c_indent = - 1, c_is_array = False, c_container = 0\<rparr>"
  let ?arr = "\<lparr>c_indent = 0, c_is_array = True, c_container = Suc 0\<rparr>"
  let ?obj = "\<lparr>c_indent = 2, c_is_array = False, c_container = Suc 0\<rparr>"
  have t1: "Trim ''- x'' = ''- x''" and t2: "Trim ''  b: 1'' = ''b: 1''"
    and t3: "Trim '' stray'' = ''stray''"
    by (simp_all add: Trim_def isspace_def)
  have i1: "LeadingIndent ''- x'' = 0" and i2: "LeadingIndent ''  b: 1'' = 2"
    and i3: "LeadingIndent '' stray'' = 1"
    by (simp_all add: LeadingIndent_def TAB_def)
  have p1: "pop_phase 0 [?root] = [?root]" by (simp add: pop_phase_single)
  have p2: "pop_phase 2 [?arr, ?root] = [?arr, ?root]" by (simp add: pop_phase_Cons2)
  have p3: "pop_phase 1 [?obj, ?root] = [?root]" by (simp add: pop_phase_Cons2 pop_phase_single)
  have a: "process_line strtod_nothing [''- x''] 0 \<lparr>stack = [?root], heap = [JObject []]\<rparr>
      = Some \<lparr>stack = [?root], heap = [JObject []]\<rparr>"
    using mismatched_line_is_skipped[of "\<lparr>stack = [?root], heap = [JObject []]\<rparr>" "[''- x'']" 0 ?root strtod_nothing]
    by (simp add: t1 i1 p1)
  have b: "process_line strtod_nothing [''  b: 1''] 0
        \<lparr>stack = [?arr, ?root], heap = [JObject [(''a'', JRef (Suc 0))], JArray []]\<rparr>
      = Some \<lparr>stack = [?arr, ?root], heap = [JObject [(''a'', JRef (Suc 0))], JArray []]\<rparr>"
    using mismatched_line_is_skipped[of "\<lparr>stack = [?arr, ?root], heap = [JObject [(''a'', JRef (Suc 0))], JArray []]\<rparr>"
                "[''  b: 1'']" 0 ?arr strtod_nothing]
    by (simp add: t2 i2 p2)
  have c: "process_line strtod_nothing ['' stray''] 0
        \<lparr>stack = [?obj, ?root], heap = [JObject [(''a'', JRef (Suc 0))], JObject []]\<rparr>
      = Some \<lparr>stack = [?root], heap = [JObject [(''a'', JRef (Suc 0))], JObject []]\<rparr>"
    using mismatched_line_is_skipped[of "\<lparr>stack = [?obj, ?root], heap = [JObject [(''a'', JRef (Suc 0))], JObject []]\<rparr>"
                "['' stray'']" 0 ?root strtod_nothing]
    by (simp add: t3 i3 p3)
  show ?thesis using a b c by simp
qed

subsection \<open>The steps of the loop on reachable states\<close>

lemma process_line_result:
  assumes ok: "state_ok h0 lines i st" and i: "i < length lines"
    and nb: "Trim (lines ! i) \<noteq> []"
  shows "\<exists>kvs. hd (pop_phase (LeadingIndent (lines ! i)) (stack st))
            \<in> set (pop_phase (LeadingIndent (lines ! i)) (stack st))
     \<and> c_container (hd (pop_phase (LeadingIndent (lines ! i)) (stack st))) < length (heap st)
     \<and> heap st ! c_container (hd (pop_phase (LeadingIndent (lines ! i)) (stack st))) = JObject kvs
     \<and> process_line strtod lines i st = Some
         (if hd (Trim (lines ! i)) = CHR ''-''
          then st\<lparr>stack := pop_phase (LeadingIndent (lines ! i)) (stack st)\<rparr>
          else case find_char (CHR '':'') (Trim (lines ! i)) of
             None \<Rightarrow> st\<lparr>stack := pop_phase (LeadingIndent (lines ! i)) (stack st)\<rparr>
           | Some colon \<Rightarrow>
               if Trim (drop (colon + 1) (Trim (lines ! i))) = []
               then opened_state lines i (LeadingIndent (lines ! i))
                      (Trim (take colon (Trim (lines ! i))))
                      (c_container (hd (pop_phase (LeadingIndent (lines ! i)) (stack st)))) kvs
                      (st\<lparr>stack := pop_phase (LeadingIndent (lines ! i)) (stack st)\<rparr>)
               else st\<lparr>stack := pop_phase (LeadingIndent (lines ! i)) (stack st),
                       heap := (heap st)
                         [c_container (hd (pop_phase (LeadingIndent (lines ! i)) (stack st))) :=
                            JObject (set_property kvs (Trim (take colon (Trim (lines ! i))))
                              (ParseScalarToJs strtod
                                 (Trim (drop (colon + 1) (Trim (lines ! i))))))]\<rparr>)"
proof -
  let ?ind = "LeadingIndent (lines ! i)"
  let ?trimmed = "Trim (lines ! i)"
  let ?popped = "pop_phase ?ind (stack st)"
  let ?st1 = "st\<lparr>stack := ?popped\<rparr>"
  let ?cur = "hd ?popped"
  have pl: "process_line strtod lines i st =
     (if hd ?trimmed = CHR ''-'' then Some ?st1
      else mapping_entry strtod lines i ?ind ?trimmed ?cur ?st1)"
    using process_line_nonblank[OF ok i nb] .
  have pok: "objects_ok h0 ?st1" using objects_ok_popped[OF ok i nb] .
  obtain kvs where cur_in: "?cur \<in> set (stack ?st1)"
      and node: "heap ?st1 ! c_container ?cur = JObject kvs"
    using current_object[OF ok i nb] by auto
  have cur_lt: "c_container ?cur < length (heap ?st1)"
    using pok cur_in by (auto simp: objects_ok_def list_all_iff context_ok_def)
  have res: "process_line strtod lines i st = Some
         (if hd ?trimmed = CHR ''-'' then ?st1
          else case find_char (CHR '':'') ?trimmed of
             None \<Rightarrow> ?st1
           | Some colon \<Rightarrow>
               if Trim (drop (colon + 1) ?trimmed) = []
               then opened_state lines i ?ind (Trim (take colon ?trimmed)) (c_container ?cur) kvs ?st1
               else st\<lparr>stack := ?popped,
                       heap := (heap st)[c_container ?cur :=
                            JObject (set_property kvs (Trim (take colon ?trimmed))
                              (ParseScalarToJs strtod (Trim (drop (colon + 1) ?trimmed))))]\<rparr>)"
  proof (cases "hd ?trimmed = CHR ''-''")
    case True
    then show ?thesis using pl by simp
  next
    case nd: False
    show ?thesis
    proof (cases "find_char (CHR '':'') ?trimmed")
      case None
      then show ?thesis using pl nd by (simp add: mapping_entry_no_colon)
    next
      case (Some colon)
      show ?thesis
      proof (cases "Trim (drop (colon + 1) ?trimmed) = []")
        case True
        show ?thesis
          using pl nd Some True mapping_entry_open[OF Some True cur_lt node, of strtod lines i ?ind]
          by simp
      next
        case False
        show ?thesis
          using pl nd Some False mapping_entry_scalar[OF Some False cur_lt node, of strtod lines i ?ind]
          by simp
      qed
    qed
  qed
  show ?thesis using cur_in cur_lt node res by auto
qed

lemma state_after_Some_ok:
  "state_after strtod lines h0 n = Some st \<Longrightarrow> state_ok h0 lines n st"
  using state_after_ok[of strtod lines h0 n] by auto

lemma PeekNextLine_skip_blank:
  "(\<forall>j. i \<le> j \<and> j < n \<longrightarrow> Trim (lines ! j) = []) \<Longrightarrow> i \<le> n \<Longrightarrow> n \<le> length lines \<Longrightarrow>
     PeekNextLine lines i = PeekNextLine lines n"
proof (induction "n - i" arbitrary: i)
  case 0
  then show ?case by simp
next
  case (Suc k)
  then have lt: "i < n" by simp
  then have "Trim (lines ! i) = []" using Suc.prems by simp
  then have "PeekNextLine lines i = PeekNextLine lines (Suc i)"
    using PeekNextLine_blank[of i lines] lt Suc.prems by simp
  moreover have "PeekNextLine lines (Suc i) = PeekNextLine lines n"
    using Suc.hyps(1)[of "Suc i"] Suc.hyps(2) Suc.prems lt by simp
  ultimately show ?case by simp
qed

lemma process_line_frame:
  assumes ok: "state_ok h0 lines n st" and n: "n < length lines"
    and nb: "Trim (lines ! n) \<noteq> []"
    and c: "c < length (heap st)"
    and notin: "c \<notin> c_container ` set (pop_phase (LeadingIndent (lines ! n)) (stack st))"
    and pl: "process_line strtod lines n st = Some st'"
  shows "heap st' ! c = heap st ! c \<and> c \<notin> c_container ` set (stack st') \<and> c < length (heap st')"
proof -
  let ?popped = "pop_phase (LeadingIndent (lines ! n)) (stack st)"
  let ?cur = "hd ?popped"
  obtain kvs where cur_in: "?cur \<in> set ?popped"
    and res: "process_line strtod lines n st = Some
         (if hd (Trim (lines ! n)) = CHR ''-'' then st\<lparr>stack := ?popped\<rparr>
          else case find_char (CHR '':'') (Trim (lines ! n)) of
             None \<Rightarrow> st\<lparr>stack := ?popped\<rparr>
           | Some colon \<Rightarrow>
               if Trim (drop (colon + 1) (Trim (lines ! n))) = []
               then opened_state lines n (LeadingIndent (lines ! n))
                      (Trim (take colon (Trim (lines ! n)))) (c_container ?cur) kvs
                      (st\<lparr>stack := ?popped\<rparr>)
               else st\<lparr>stack := ?popped,
                       heap := (heap st)[c_container ?cur :=
                            JObject (set_property kvs (Trim (take colon (Trim (lines ! n))))
                              (ParseScalarToJs strtod
                                 (Trim (drop (colon + 1) (Trim (lines ! n))))))]\<rparr>)"
    using process_line_result[OF ok n nb, of strtod] by blast
  have ne: "c_container ?cur \<noteq> c" using cur_in notin by auto
  show ?thesis
    using res pl c ne notin
    by (auto simp: opened_state_def Let_def nth_append split: if_splits option.splits)
qed

lemma opened_child_stays_empty:
  assumes st: "state_after strtod lines h0 i = Some st" and i: "i < length lines"
    and nb: "Trim (lines ! i) \<noteq> []" and nd: "hd (Trim (lines ! i)) \<noteq> CHR ''-''"
    and colon: "find_char (CHR '':'') (Trim (lines ! i)) = Some colon"
    and empty: "Trim (drop (colon + 1) (Trim (lines ! i))) = []"
    and n: "i < n"
  shows "\<exists>stn. state_after strtod lines h0 n = Some stn
     \<and> length (heap st) < length (heap stn)
     \<and> heap stn ! length (heap st)
         = (if next_is_array (PeekNextLine lines (i + 1)) then JArray [] else JObject [])
     \<and> ((\<exists>j. i < j \<and> j < n \<and> j < length lines \<and> Trim (lines ! j) \<noteq> [])
           \<longrightarrow> length (heap st) \<notin> c_container ` set (stack stn))
     \<and> ((\<forall>j. i < j \<and> j < n \<and> j < length lines \<longrightarrow> Trim (lines ! j) = [])
           \<longrightarrow> stack stn =
                \<lparr>c_indent = child_indent (PeekNextLine lines (i + 1)) (LeadingIndent (lines ! i)),
                 c_is_array = next_is_array (PeekNextLine lines (i + 1)),
                 c_container = length (heap st)\<rparr>
                # pop_phase (LeadingIndent (lines ! i)) (stack st))"
  using n
proof (induction n)
  case 0
  then show ?case by simp
next
  case (Suc n)
  let ?next = "PeekNextLine lines (i + 1)"
  let ?c = "length (heap st)"
  let ?E = "if next_is_array ?next then JArray [] else JObject []"
  let ?popped = "pop_phase (LeadingIndent (lines ! i)) (stack st)"
  let ?cctx = "\<lparr>c_indent = child_indent ?next (LeadingIndent (lines ! i)),
                 c_is_array = next_is_array ?next, c_container = ?c\<rparr>"
  have ok: "state_ok h0 lines i st" using state_after_Some_ok[OF st] .
  have old_lt: "\<forall>x \<in> set ?popped. c_container x < ?c"
    using ok set_pop_phase[of "LeadingIndent (lines ! i)" "stack st"]
    by (auto simp: state_ok_def list_all_iff context_ok_def)
  show ?case
  proof (cases "n = i")
    case True
    obtain kvs where lt: "c_container (hd ?popped) < ?c"
      and pl: "process_line strtod lines i st = Some
           (opened_state lines i (LeadingIndent (lines ! i)) (Trim (take colon (Trim (lines ! i))))
              (c_container (hd ?popped)) kvs (st\<lparr>stack := ?popped\<rparr>))"
      using process_line_result[OF ok i nb, of strtod] nd colon empty by auto
    show ?thesis
      using True st i pl lt
      by (auto simp: opened_state_def Let_def nth_append)
  next
    case False
    then have gt: "i < n" using Suc.prems by simp
    obtain stn where stn: "state_after strtod lines h0 n = Some stn"
      and len: "?c < length (heap stn)" and cell: "heap stn ! ?c = ?E"
      and D2: "(\<exists>j. i < j \<and> j < n \<and> j < length lines \<and> Trim (lines ! j) \<noteq> [])
           \<longrightarrow> ?c \<notin> c_container ` set (stack stn)"
      and D1: "(\<forall>j. i < j \<and> j < n \<and> j < length lines \<longrightarrow> Trim (lines ! j) = [])
           \<longrightarrow> stack stn = ?cctx # ?popped"
      using Suc.IH[OF gt] by blast
    have okn: "state_ok h0 lines n stn" using state_after_Some_ok[OF stn] .
    show ?thesis
    proof (cases "n < length lines")
      case past: False
      then have same: "state_after strtod lines h0 (Suc n) = Some stn" using stn by simp
      have e1: "(\<exists>j. i < j \<and> j < Suc n \<and> j < length lines \<and> Trim (lines ! j) \<noteq> [])
            = (\<exists>j. i < j \<and> j < n \<and> j < length lines \<and> Trim (lines ! j) \<noteq> [])"
        using past by auto
      have e2: "(\<forall>j. i < j \<and> j < Suc n \<and> j < length lines \<longrightarrow> Trim (lines ! j) = [])
            = (\<forall>j. i < j \<and> j < n \<and> j < length lines \<longrightarrow> Trim (lines ! j) = [])"
        using past by auto
      show ?thesis unfolding e1 e2 using same len cell D1 D2 by blast
    next
      case inl: True
      show ?thesis
      proof (cases "Trim (lines ! n) = []")
        case blank: True
        then have same: "state_after strtod lines h0 (Suc n) = Some stn"
          using stn inl by (simp add: process_line_blank)
        have e1: "(\<exists>j. i < j \<and> j < Suc n \<and> j < length lines \<and> Trim (lines ! j) \<noteq> [])
            = (\<exists>j. i < j \<and> j < n \<and> j < length lines \<and> Trim (lines ! j) \<noteq> [])"
          using blank less_Suc_eq by auto
        have e2: "(\<forall>j. i < j \<and> j < Suc n \<and> j < length lines \<longrightarrow> Trim (lines ! j) = [])
            = (\<forall>j. i < j \<and> j < n \<and> j < length lines \<longrightarrow> Trim (lines ! j) = [])"
          using blank less_Suc_eq by auto
        show ?thesis unfolding e1 e2 using same len cell D1 D2 by blast
      next
        case nbn: False
        let ?indn = "LeadingIndent (lines ! n)"
        have notin: "?c \<notin> c_container ` set (pop_phase ?indn (stack stn))"
        proof (cases "\<exists>j. i < j \<and> j < n \<and> j < length lines \<and> Trim (lines ! j) \<noteq> []")
          case True
          then have "?c \<notin> c_container ` set (stack stn)" using D2 by simp
          then show ?thesis using set_pop_phase[of ?indn "stack stn"] by auto
        next
          case False
          then have allb: "\<forall>j. i < j \<and> j < n \<and> j < length lines \<longrightarrow> Trim (lines ! j) = []" by blast
          then have stk: "stack stn = ?cctx # ?popped" using D1 by simp
          have "\<forall>j. i + 1 \<le> j \<and> j < n \<longrightarrow> Trim (lines ! j) = []"
            using allb inl by auto
          then have "PeekNextLine lines (i + 1) = PeekNextLine lines n"
            using PeekNextLine_skip_blank[of "i + 1" n lines] gt inl by simp
          then have nx: "found ?next" "n_indent ?next = ?indn"
            using PeekNextLine_nonblank[OF inl nbn] by simp_all
          have pne: "?popped \<noteq> []"
            using pop_phase_not_Nil[of "stack st"] ok by (simp add: state_ok_def)
          then obtain c' cs where pp: "?popped = c' # cs" by (cases ?popped) auto
          have "pop_phase ?indn (stack stn) = pop_phase ?indn ?popped"
            unfolding stk pp using nx by (simp add: pop_phase_Cons2 child_indent_def)
          then have "set (pop_phase ?indn (stack stn)) \<subseteq> set ?popped"
            using set_pop_phase[of ?indn ?popped] by simp
          then show ?thesis using old_lt by auto
        qed
        obtain st' where pl: "process_line strtod lines n stn = Some st'"
          using process_line_ok[OF okn inl, of strtod] by blast
        have fr: "heap st' ! ?c = heap stn ! ?c \<and> ?c \<notin> c_container ` set (stack st')
            \<and> ?c < length (heap st')"
          using process_line_frame[OF okn inl nbn len notin pl] .
        have nxt: "state_after strtod lines h0 (Suc n) = Some st'" using stn inl pl by simp
        have ex: "\<exists>j. i < j \<and> j < Suc n \<and> j < length lines \<and> Trim (lines ! j) \<noteq> []"
          using gt inl nbn by auto
        then have nall: "\<not> (\<forall>j. i < j \<and> j < Suc n \<and> j < length lines \<longrightarrow> Trim (lines ! j) = [])"
          by blast
        show ?thesis using nxt fr cell nall ex by auto
      qed
    qed
  qed
qed

lemma PeekNextLine_found:
  "found (PeekNextLine lines i) \<Longrightarrow> \<exists>j. i \<le> j \<and> j < length lines \<and> Trim (lines ! j) \<noteq> []"
proof (induction "length lines - i" arbitrary: i)
  case 0
  then show ?case using PeekNextLine_end[of lines i] by simp
next
  case (Suc k)
  then have lt: "i < length lines" by simp
  show ?case
  proof (cases "Trim (lines ! i) = []")
    case True
    then have "found (PeekNextLine lines (Suc i))"
      using Suc.prems PeekNextLine_blank[OF lt] by simp
    moreover have "k = length lines - Suc i" using Suc.hyps(2) by simp
    ultimately obtain j where "Suc i \<le> j \<and> j < length lines \<and> Trim (lines ! j) \<noteq> []"
      using Suc.hyps(1)[of "Suc i"] by blast
    then show ?thesis by (intro exI[of _ j]) simp
  next
    case False
    then show ?thesis using lt by blast
  qed
qed

subsection \<open>The drivers example\<close>

lemmas line_eval =
  process_line_def Trim_def isspace_def LeadingIndent_def TAB_def Let_def
  pop_phase_single pop_phase_Cons2 mapping_entry_def SetObjectProperty_def
  ParseScalarToJs_def DQUOTE_def root_context_def

lemma drivers_split: "SplitLines drivers_text = drivers_lines"
  by (simp add: drivers_text_def drivers_lines_def SplitLines_def CR_def LF_def DQUOTE_def)

lemma drivers_peek:
  "PeekNextLine drivers_lines (Suc 0) = \<lparr>found = True, n_indent = 0, starts_with_dash = True\<rparr>"
  by (subst PeekNextLine.simps)
     (simp add: drivers_lines_def Trim_def isspace_def LeadingIndent_def TAB_def Let_def)

lemma drivers_0:
  "process_line strtod drivers_lines 0 (initial_state [])
     = Some \<lparr>stack = [\<lparr>c_indent = 0, c_is_array = True, c_container = Suc 0\<rparr>, root_context 0],
             heap = [JObject [(''Drivers'', JRef (Suc 0))], JArray []]\<rparr>"
  using drivers_peek
  by (simp add: drivers_lines_def line_eval initial_state_def napi_create_object_def
      napi_create_array_def create_child_def next_is_array_def child_indent_def)

lemma drivers_1:
  "process_line strtod drivers_lines (Suc 0)
      \<lparr>stack = [\<lparr>c_indent = 0, c_is_array = True, c_container = Suc 0\<rparr>, root_context 0],
             heap = [JObject [(''Drivers'', JRef (Suc 0))], JArray []]\<rparr>
     = Some \<lparr>stack = [root_context 0],
             heap = [JObject [(''Drivers'', JRef (Suc 0))], JArray []]\<rparr>"
  by (simp add: drivers_lines_def line_eval)

lemma drivers_2:
  "process_line strtod drivers_lines (Suc (Suc 0))
      \<lparr>stack = [root_context 0],
             heap = [JObject [(''Drivers'', JRef (Suc 0))], JArray []]\<rparr>
     = Some \<lparr>stack = [root_context 0],
             heap = [JObject [(''Drivers'', JRef (Suc 0)), (''UserName'', JString ''Bob'')], JArray []]\<rparr>"
  by (simp add: drivers_lines_def line_eval)

lemma drivers_3:
  "process_line strtod drivers_lines (Suc (Suc (Suc 0)))
      \<lparr>stack = [root_context 0],
             heap = [JObject [(''Drivers'', JRef (Suc 0)), (''UserName'', JString ''Bob'')], JArray []]\<rparr>
     = Some \<lparr>stack = [root_context 0],
             heap = [JObject [(''Drivers'', JRef (Suc 0)), (''UserName'', JString ''Bob'')], JArray []]\<rparr>"
  by (simp add: drivers_lines_def line_eval)

lemma drivers_4:
  "process_line strtod drivers_lines (Suc (Suc (Suc (Suc 0))))
      \<lparr>stack = [root_context 0],
             heap = [JObject [(''Drivers'', JRef (Suc 0)), (''UserName'', JString ''Bob'')], JArray []]\<rparr>
     = Some \<lparr>stack = [root_context 0],
             heap = [JObject [(''Drivers'', JRef (Suc 0)), (''UserName'', JString ''Sam'')], JArray []]\<rparr>"
  by (simp add: drivers_lines_def line_eval)

lemma drivers_len: "length drivers_lines = Suc (Suc (Suc (Suc (Suc 0))))"
  by (simp add: drivers_lines_def)

lemma drivers_js:
  "ParseSessionYamlToJs strtod [] drivers_text
     = Some ([JObject [(''Drivers'', JRef (Suc 0)), (''UserName'', JString ''Sam'')], JArray []], 0)"
  unfolding ParseSessionYamlToJs_state_after drivers_split drivers_len
  by (simp add: drivers_len drivers_0 drivers_1 drivers_2 drivers_3 drivers_4)

subsection \<open>The parse does not depend on the heap of the caller\<close>

lemma shift_ctx_simps [simp]:
  "c_indent (shift_ctx k c) = c_indent c"
  "c_is_array (shift_ctx k c) = c_is_array c"
  "c_container (shift_ctx k c) = c_container c + k"
  by (simp_all add: shift_ctx_def)

lemma pop_phase_shift:
  "pop_phase indent (map (shift_ctx k) stk) = map (shift_ctx k) (pop_phase indent stk)"
proof (induction stk)
  case Nil
  show ?case by (simp add: pop_phase_Nil)
next
  case (Cons c cs)
  then show ?case by (cases cs) (simp_all add: pop_phase_single pop_phase_Cons2)
qed

lemma set_property_shift:
  "map (\<lambda>kv. (fst kv, shift_val k (snd kv))) (set_property kvs key v)
     = set_property (map (\<lambda>kv. (fst kv, shift_val k (snd kv))) kvs) key (shift_val k v)"
  by (induction kvs key v rule: set_property.induct) auto

lemma SetObjectProperty_shift:
  "SetObjectProperty (h0 @ map (shift_node (length h0)) h) (a + length h0) key (shift_val (length h0) v)
     = map_option (\<lambda>h'. h0 @ map (shift_node (length h0)) h') (SetObjectProperty h a key v)"
proof (cases "a < length h")
  case True
  then show ?thesis
    by (cases "h ! a")
       (simp_all add: SetObjectProperty_def nth_append list_update_append set_property_shift
          map_update)
next
  case False
  then show ?thesis by (simp add: SetObjectProperty_def)
qed

lemma AppendToArray_shift:
  "AppendToArray (h0 @ map (shift_node (length h0)) h) (a + length h0) (shift_val (length h0) v)
     = map_option (\<lambda>h'. h0 @ map (shift_node (length h0)) h') (AppendToArray h a v)"
proof (cases "a < length h")
  case True
  then show ?thesis
    by (cases "h ! a")
       (simp_all add: AppendToArray_def nth_append list_update_append map_update)
next
  case False
  then show ?thesis by (simp add: AppendToArray_def)
qed

lemma ParseScalarToJs_shift: "shift_val k (ParseScalarToJs strtod v) = ParseScalarToJs strtod v"
  by (auto simp: ParseScalarToJs_def split: option.splits)

lemma create_child_shift:
  "create_child next_info (h0 @ map (shift_node (length h0)) h)
     = (h0 @ map (shift_node (length h0)) (fst (create_child next_info h)),
        snd (create_child next_info h) + length h0)"
  by (simp add: create_child_def napi_create_array_def napi_create_object_def)

lemma napi_create_object_shift:
  "napi_create_object (h0 @ map (shift_node (length h0)) h)
     = (h0 @ map (shift_node (length h0)) (fst (napi_create_object h)),
        snd (napi_create_object h) + length h0)"
  by (simp add: napi_create_object_def)

lemma SetObjectProperty_shift_ref:
  "SetObjectProperty (h0 @ map (shift_node (length h0)) h) (a + length h0) key (JRef (c + length h0))
     = map_option (\<lambda>h'. h0 @ map (shift_node (length h0)) h') (SetObjectProperty h a key (JRef c))"
  using SetObjectProperty_shift[of h0 h a key "JRef c"] by simp

lemma SetObjectProperty_shift_scalar:
  "SetObjectProperty (h0 @ map (shift_node (length h0)) h) (a + length h0) key (ParseScalarToJs strtod v)
     = map_option (\<lambda>h'. h0 @ map (shift_node (length h0)) h')
         (SetObjectProperty h a key (ParseScalarToJs strtod v))"
  using SetObjectProperty_shift[of h0 h a key "ParseScalarToJs strtod v"]
  by (simp add: ParseScalarToJs_shift)

lemma AppendToArray_shift_ref:
  "AppendToArray (h0 @ map (shift_node (length h0)) h) (a + length h0) (JRef (c + length h0))
     = map_option (\<lambda>h'. h0 @ map (shift_node (length h0)) h') (AppendToArray h a (JRef c))"
  using AppendToArray_shift[of h0 h a "JRef c"] by simp

lemma AppendToArray_shift_scalar:
  "AppendToArray (h0 @ map (shift_node (length h0)) h) (a + length h0) (ParseScalarToJs strtod v)
     = map_option (\<lambda>h'. h0 @ map (shift_node (length h0)) h')
         (AppendToArray h a (ParseScalarToJs strtod v))"
  using AppendToArray_shift[of h0 h a "ParseScalarToJs strtod v"]
  by (simp add: ParseScalarToJs_shift)

lemmas shift_calls =
  SetObjectProperty_shift_ref SetObjectProperty_shift_scalar AppendToArray_shift_ref
  AppendToArray_shift_scalar create_child_shift napi_create_object_shift

lemma mapping_entry_shift:
  "mapping_entry strtod lines i indent trimmed (shift_ctx (length h0) current) (shift_state h0 st)
     = map_option (shift_state h0) (mapping_entry strtod lines i indent trimmed current st)"
proof (cases "find_char (CHR '':'') trimmed")
  case None
  then show ?thesis by (simp add: mapping_entry_def)
next
  case (Some colon)
  show ?thesis
  proof (cases "Trim (drop (colon + 1) trimmed) = []")
    case True
    then show ?thesis
      using Some
      by (simp add: mapping_entry_def Let_def split_def shift_state_def shift_calls
          split: option.splits)
  next
    case False
    then show ?thesis
      using Some
      by (simp add: mapping_entry_def Let_def shift_state_def shift_calls split: option.splits)
  qed
qed

lemma sequence_item_shift:
  "sequence_item strtod lines i indent trimmed (shift_ctx (length h0) current) (shift_state h0 st)
     = map_option (shift_state h0) (sequence_item strtod lines i indent trimmed current st)"
proof (cases "Trim (drop 1 trimmed) = []")
  case True
  then show ?thesis
    by (simp add: sequence_item_def Let_def split_def shift_state_def shift_calls
        split: option.splits)
next
  case ne: False
  show ?thesis
  proof (cases "find_char (CHR '':'') (Trim (drop 1 trimmed))")
    case None
    then show ?thesis
      using ne
      by (simp add: sequence_item_def Let_def shift_state_def shift_calls split: option.splits)
  next
    case (Some colon)
    show ?thesis
    proof (cases "Trim (drop (colon + 1) (Trim (drop 1 trimmed))) = []")
      case True
      then show ?thesis
        using ne Some
        by (simp add: sequence_item_def Let_def split_def shift_state_def shift_calls
            split: option.splits)
    next
      case False
      then show ?thesis
        using ne Some
        by (simp add: sequence_item_def Let_def split_def shift_state_def shift_calls
            split: option.splits)
    qed
  qed
qed

lemma process_line_shift:
  "process_line strtod lines i (shift_state h0 st)
     = map_option (shift_state h0) (process_line strtod lines i st)"
proof (cases "Trim (lines ! i) = []")
  case True
  then show ?thesis by (simp add: process_line_def)
next
  case nb: False
  let ?popped = "pop_phase (LeadingIndent (lines ! i)) (stack st)"
  have st1: "\<And>c r. shift_state h0 st\<lparr>stack := shift_ctx (length h0) c # map (shift_ctx (length h0)) r\<rparr>
      = shift_state h0 (st\<lparr>stack := c # r\<rparr>)"
    by (simp add: shift_state_def)
  show ?thesis
  proof (cases ?popped)
    case Nil
    then show ?thesis
      using nb by (simp add: process_line_def Let_def shift_state_def pop_phase_shift)
  next
    case (Cons current rest)
    have stk: "stack (shift_state h0 st) = map (shift_ctx (length h0)) (stack st)"
      by (simp add: shift_state_def)
    show ?thesis
      using nb Cons
        mapping_entry_shift[of strtod lines i "LeadingIndent (lines ! i)" "Trim (lines ! i)" h0
          current "st\<lparr>stack := ?popped\<rparr>"]
        sequence_item_shift[of strtod lines i "LeadingIndent (lines ! i)" "Trim (lines ! i)" h0
          current "st\<lparr>stack := ?popped\<rparr>"]
      by (simp add: process_line_def Let_def stk pop_phase_shift st1)
  qed
qed

lemma initial_state_shift: "initial_state h0 = shift_state h0 (initial_state [])"
  by (simp add: initial_state_def napi_create_object_def shift_state_def root_context_def
      shift_ctx_def)

lemma state_after_shift:
  "state_after strtod lines h0 n = map_option (shift_state h0) (state_after strtod lines [] n)"
proof (induction n)
  case 0
  show ?case using initial_state_shift[of h0] by simp
next
  case (Suc n)
  then show ?case
    by (cases "state_after strtod lines [] n") (simp_all add: process_line_shift)
qed

lemma all_some_cong:
  "(\<And>x. x \<in> set xs \<Longrightarrow> f x = g x) \<Longrightarrow> all_some (map f xs) = all_some (map g xs)"
proof (induction xs)
  case Nil
  show ?case by simp
next
  case (Cons x xs)
  then have "all_some (map f xs) = all_some (map g xs)" and "f x = g x" by simp_all
  then show ?case by (cases "g x") simp_all
qed

lemma sub_tree_shift:
  assumes "\<And>a'. a < a' \<Longrightarrow> a' < length h \<Longrightarrow>
      tree_of (h0 @ map (shift_node (length h0)) h) (a' + length h0) = tree_of h a'"
  shows "sub_tree (h0 @ map (shift_node (length h0)) h) (a + length h0) (shift_val (length h0) v)
     = sub_tree h a v"
  using assms by (cases v) (auto simp: sub_tree_def)

lemma tree_of_shift:
  "tree_of (h0 @ map (shift_node (length h0)) h) (a + length h0) = tree_of h a"
proof (induction "length h - a" arbitrary: a rule: less_induct)
  case less
  let ?H = "h0 @ map (shift_node (length h0)) h"
  let ?k = "length h0"
  have IH: "\<And>a'. a < a' \<Longrightarrow> a' < length h \<Longrightarrow> tree_of ?H (a' + ?k) = tree_of h a'"
    using less.hyps by simp
  have sub: "\<And>v. sub_tree ?H (a + ?k) (shift_val ?k v) = sub_tree h a v"
    using sub_tree_shift[of a h h0] IH by blast
  show ?case
  proof (cases "a < length h")
    case False
    then show ?thesis by (simp add: tree_of_unfold[of ?H] tree_of_unfold[of h])
  next
    case True
    show ?thesis
    proof (cases "h ! a")
      case (JObject kvs)
      have "all_some (map (\<lambda>kv. sub_tree ?H (a + ?k) (shift_val ?k (snd kv))) kvs)
          = all_some (map (\<lambda>kv. sub_tree h a (snd kv)) kvs)"
        using sub by simp
      then show ?thesis
        using True JObject
        by (simp add: tree_of_unfold[of ?H] tree_of_unfold[of h] nth_append comp_def)
    next
      case (JArray vs)
      have "all_some (map (\<lambda>v. sub_tree ?H (a + ?k) (shift_val ?k v)) vs)
          = all_some (map (sub_tree h a) vs)"
        using sub by simp
      then show ?thesis
        using True JArray
        by (simp add: tree_of_unfold[of ?H] tree_of_unfold[of h] nth_append comp_def)
    qed
  qed
qed

lemma all_some_Some_iff:
  "all_some (map f xs) = Some ys \<Longrightarrow> x \<in> set xs \<Longrightarrow> \<exists>y. f x = Some y"
proof (induction xs arbitrary: ys)
  case Nil
  then show ?case by simp
next
  case (Cons z zs)
  then show ?case by (cases "f z") auto
qed

lemma tree_of_append:
  "tree_of h a = Some t \<Longrightarrow> tree_of (h @ ext) a = Some t"
proof (induction "length h - a" arbitrary: a t rule: less_induct)
  case less
  have lt: "a < length h" using less.prems by (subst (asm) tree_of_unfold) (simp split: if_splits)
  have sub: "sub_tree (h @ ext) a v = sub_tree h a v" if "sub_tree h a v = Some s" for v s
  proof (cases v)
    case (JRef a')
    then have r: "a < a'" "a' < length h" "tree_of h a' = Some s"
      using that by (auto simp: sub_tree_def split: if_splits)
    then have "tree_of (h @ ext) a' = Some s" using less.hyps[of a' s] by simp
    then show ?thesis using JRef r by (simp add: sub_tree_def)
  qed (simp_all add: sub_tree_def)
  show ?case
  proof (cases "h ! a")
    case (JObject kvs)
    then obtain ts where ts: "all_some (map (\<lambda>kv. sub_tree h a (snd kv)) kvs) = Some ts"
      using less.prems lt by (subst (asm) tree_of_unfold) auto
    have "all_some (map (\<lambda>kv. sub_tree (h @ ext) a (snd kv)) kvs)
        = all_some (map (\<lambda>kv. sub_tree h a (snd kv)) kvs)"
    proof (rule all_some_cong)
      fix kv assume "kv \<in> set kvs"
      then obtain s where "sub_tree h a (snd kv) = Some s"
        using all_some_Some_iff[OF ts] by blast
      then show "sub_tree (h @ ext) a (snd kv) = sub_tree h a (snd kv)" using sub by blast
    qed
    then show ?thesis
      using less.prems lt JObject
      by (simp add: tree_of_unfold[of "h @ ext"] tree_of_unfold[of h] nth_append)
  next
    case (JArray vs)
    then obtain ts where ts: "all_some (map (sub_tree h a) vs) = Some ts"
      using less.prems lt by (subst (asm) tree_of_unfold) auto
    have "all_some (map (sub_tree (h @ ext) a) vs) = all_some (map (sub_tree h a) vs)"
    proof (rule all_some_cong)
      fix v assume "v \<in> set vs"
      then obtain s where "sub_tree h a v = Some s"
        using all_some_Some_iff[OF ts] by blast
      then show "sub_tree (h @ ext) a v = sub_tree h a v" using sub by blast
    qed
    then show ?thesis
      using less.prems lt JArray
      by (simp add: tree_of_unfold[of "h @ ext"] tree_of_unfold[of h] nth_append)
  qed
qed

lemma ParseSessionYamlToTree_shift:
  "ParseSessionYamlToTree strtod h0 session = ParseSessionYamlToTree strtod [] session"
proof -
  let ?lines = "SplitLines session"
  obtain st0 where st0: "state_after strtod ?lines [] (length ?lines) = Some st0"
    using state_after_ok by blast
  have s: "state_after strtod ?lines h0 (length ?lines) = Some (shift_state h0 st0)"
    using state_after_shift[of strtod ?lines h0 "length ?lines"] st0 by simp
  have "tree_of (heap (shift_state h0 st0)) (0 + length h0) = tree_of (heap st0) 0"
    unfolding shift_state_def using tree_of_shift[of h0 "heap st0" 0] by simp
  then show ?thesis
    using s st0 by (simp add: ParseSessionYamlToTree_def ParseSessionYamlToJs_state_after)
qed

lemma parse_result_tree:
  "\<exists>h ts. ParseSessionYamlToJs strtod h0 session = Some (h, length h0)
      \<and> length h0 < length h \<and> take (length h0) h = h0
      \<and> tree_of h (length h0) = Some (Object ts)"
proof -
  let ?lines = "SplitLines session"
  obtain st where st: "state_after strtod ?lines h0 (length ?lines) = Some st"
      and ok: "state_ok h0 ?lines (length ?lines) st"
    using state_after_ok by blast
  have js: "ParseSessionYamlToJs strtod h0 session = Some (heap st, length h0)"
    using st by (simp add: ParseSessionYamlToJs_state_after)
  obtain kvs where root: "length h0 < length (heap st)" "heap st ! length h0 = JObject kvs"
    using root_object[OF ok] by blast
  have fw: "heap_forward (length h0) (heap st)" and tk: "take (length h0) (heap st) = h0"
    using ok by (simp_all add: state_ok_def)
  obtain ts where tree: "tree_of (heap st) (length h0) = Some (Object ts)"
    using tree_of_total[OF fw _ root(1)] root(2) by auto
  show ?thesis using js root(1) tk tree by blast
qed

lemma leading_colon_step:
  assumes st: "state_after strtod lines h0 i = Some st" and i: "i < length lines"
    and nb: "Trim (lines ! i) \<noteq> []" and colon: "hd (Trim (lines ! i)) = CHR '':''"
  shows "\<exists>st' kvs kvs'.
      state_after strtod lines h0 (Suc i) = Some st'
    \<and> heap st ! c_container (hd (pop_phase (LeadingIndent (lines ! i)) (stack st))) = JObject kvs
    \<and> heap st' ! c_container (hd (pop_phase (LeadingIndent (lines ! i)) (stack st))) = JObject kvs'
    \<and> kvs' = set_property kvs []
         (if Trim (drop 1 (Trim (lines ! i))) = [] then JRef (length (heap st))
          else ParseScalarToJs strtod (Trim (drop 1 (Trim (lines ! i)))))
    \<and> map_of kvs' [] \<noteq> None"
proof -
  let ?trimmed = "Trim (lines ! i)"
  let ?cur = "hd (pop_phase (LeadingIndent (lines ! i)) (stack st))"
  have ok: "state_ok h0 lines i st" using state_after_Some_ok[OF st] .
  obtain c cs where tr: "?trimmed = c # cs" using nb by (cases ?trimmed) auto
  then have c: "c = CHR '':''" using colon by simp
  have fc: "find_char (CHR '':'') ?trimmed = Some 0" and nd: "hd ?trimmed \<noteq> CHR ''-''"
    using tr c by simp_all
  have key: "Trim (take 0 ?trimmed) = []" by (simp add: Trim_def)
  obtain kvs where lt: "c_container ?cur < length (heap st)"
      and node: "heap st ! c_container ?cur = JObject kvs"
      and pl: "process_line strtod lines i st = Some
         (if Trim (drop 1 ?trimmed) = []
          then opened_state lines i (LeadingIndent (lines ! i)) [] (c_container ?cur) kvs
                 (st\<lparr>stack := pop_phase (LeadingIndent (lines ! i)) (stack st)\<rparr>)
          else st\<lparr>stack := pop_phase (LeadingIndent (lines ! i)) (stack st),
                 heap := (heap st)[c_container ?cur :=
                    JObject (set_property kvs [] (ParseScalarToJs strtod (Trim (drop 1 ?trimmed))))]\<rparr>)"
    using process_line_result[OF ok i nb, of strtod] fc nd key by auto
  show ?thesis
  proof (cases "Trim (drop 1 ?trimmed) = []")
    case True
    then show ?thesis
      using st i pl lt node
      by (simp add: opened_state_def Let_def nth_append map_of_set_property)
  next
    case False
    then show ?thesis
      using st i pl lt node by (simp add: map_of_set_property)
  qed
qed

lemma leading_colon_example: "ParseSessionYamlToTree strtod [] '': 5'' = Some (Object [([], Int64 5)])"
proof -
  have sp: "SplitLines '': 5'' = ['': 5'']" by (simp add: SplitLines_def CR_def LF_def)
  have tr: "Trim '': 5'' = '': 5''" "Trim ''5'' = ''5''" "Trim '' 5'' = ''5''" "Trim [] = []"
    by (simp_all add: Trim_def isspace_def)
  have sc: "ParseScalarToJs strtod ''5'' = JInt 5"
    by (simp add: ParseScalarToJs_def TryParseInt64_def hex_prefixed_def DQUOTE_def strtoll_def
        isspace_def is_digit_def digit_val_def LLONG_MAX_def LLONG_MIN_def)
  have pl: "process_line strtod ['': 5''] 0 (initial_state [])
      = Some \<lparr>stack = [root_context 0], heap = [JObject [([], JInt 5)]]\<rparr>"
    by (simp add: process_line_def tr Let_def initial_state_def napi_create_object_def
        pop_phase_single mapping_entry_def root_context_def SetObjectProperty_def sc)
  have js: "ParseSessionYamlToJs strtod [] '': 5'' = Some ([JObject [([], JInt 5)]], 0)"
    by (simp add: ParseSessionYamlToJs_state_after sp pl)
  show ?thesis
    by (simp add: ParseSessionYamlToTree_def js tree_of_unfold sub_tree_def)
qed

lemma empty_value_step:
  assumes st: "state_after strtod lines h0 i = Some st" and i: "i < length lines"
    and nb: "Trim (lines ! i) \<noteq> []" and nd: "hd (Trim (lines ! i)) \<noteq> CHR ''-''"
    and colon: "find_char (CHR '':'') (Trim (lines ! i)) = Some colon"
    and empty: "Trim (drop (colon + 1) (Trim (lines ! i))) = []"
    and found: "found (PeekNextLine lines (i + 1))"
    and le: "n_indent (PeekNextLine lines (i + 1)) \<le> LeadingIndent (lines ! i)"
  shows "\<exists>st1 kvs.
      state_after strtod lines h0 (Suc i) = Some st1
    \<and> heap st1 ! length (heap st)
         = (if starts_with_dash (PeekNextLine lines (i + 1)) then JArray [] else JObject [])
    \<and> heap st1 ! c_container (hd (pop_phase (LeadingIndent (lines ! i)) (stack st))) = JObject kvs
    \<and> map_of kvs (Trim (take colon (Trim (lines ! i)))) = Some (JRef (length (heap st)))
    \<and> stack st1 =
         \<lparr>c_indent = n_indent (PeekNextLine lines (i + 1)),
          c_is_array = starts_with_dash (PeekNextLine lines (i + 1)),
          c_container = length (heap st)\<rparr>
         # pop_phase (LeadingIndent (lines ! i)) (stack st)
    \<and> (\<exists>j. i < j \<and> j < length lines \<and> Trim (lines ! j) \<noteq> [])
    \<and> (\<forall>n. i < n \<longrightarrow> (\<exists>stn. state_after strtod lines h0 n = Some stn
          \<and> heap stn ! length (heap st)
               = (if starts_with_dash (PeekNextLine lines (i + 1)) then JArray [] else JObject [])
          \<and> ((\<exists>j. i < j \<and> j < n \<and> j < length lines \<and> Trim (lines ! j) \<noteq> [])
                \<longrightarrow> length (heap st) \<notin> c_container ` set (stack stn))))"
proof -
  let ?next = "PeekNextLine lines (i + 1)"
  let ?popped = "pop_phase (LeadingIndent (lines ! i)) (stack st)"
  let ?cur = "hd ?popped"
  let ?key = "Trim (take colon (Trim (lines ! i)))"
  have ok: "state_ok h0 lines i st" using state_after_Some_ok[OF st] .
  have nia: "next_is_array ?next = starts_with_dash ?next"
    and ci: "child_indent ?next (LeadingIndent (lines ! i)) = n_indent ?next"
    using found by (simp_all add: next_is_array_def child_indent_def)
  obtain kvs where lt: "c_container ?cur < length (heap st)"
    and pl: "process_line strtod lines i st = Some
         (opened_state lines i (LeadingIndent (lines ! i)) ?key (c_container ?cur) kvs
            (st\<lparr>stack := ?popped\<rparr>))"
    using process_line_result[OF ok i nb, of strtod] nd colon empty by auto
  let ?st1 = "opened_state lines i (LeadingIndent (lines ! i)) ?key (c_container ?cur) kvs
            (st\<lparr>stack := ?popped\<rparr>)"
  have s1: "state_after strtod lines h0 (Suc i) = Some ?st1" using st i pl by simp
  have cell: "heap ?st1 ! length (heap st) = (if starts_with_dash ?next then JArray [] else JObject [])"
    using lt nia by (simp add: opened_state_def Let_def nth_append)
  have par: "heap ?st1 ! c_container ?cur = JObject (set_property kvs ?key (JRef (length (heap st))))"
    using lt by (simp add: opened_state_def Let_def nth_append)
  have stk: "stack ?st1 = \<lparr>c_indent = n_indent ?next, c_is_array = starts_with_dash ?next,
          c_container = length (heap st)\<rparr> # ?popped"
    using nia ci by (simp add: opened_state_def Let_def)
  have nxt: "\<exists>j. i < j \<and> j < length lines \<and> Trim (lines ! j) \<noteq> []"
  proof -
    obtain j where j: "i + 1 \<le> j \<and> j < length lines \<and> Trim (lines ! j) \<noteq> []"
      using PeekNextLine_found[OF found] by blast
    then have "i < j" by simp
    then show ?thesis using j by blast
  qed
  have later: "\<exists>stn. state_after strtod lines h0 n = Some stn
          \<and> heap stn ! length (heap st)
               = (if starts_with_dash ?next then JArray [] else JObject [])
          \<and> ((\<exists>j. i < j \<and> j < n \<and> j < length lines \<and> Trim (lines ! j) \<noteq> [])
                \<longrightarrow> length (heap st) \<notin> c_container ` set (stack stn))" if n: "i < n" for n
    using opened_child_stays_empty[OF st i nb nd colon empty n] nia by auto
  show ?thesis
    using s1 cell par stk nxt later by (simp add: map_of_set_property)
qed

lemma a_b_example:
  "ParseSessionYamlToTree strtod [] (''a:'' @ [LF] @ ''b: 1'')
     = Some (Object [(''a'', Object []), (''b'', Int64 1)])"
proof -
  have sp: "SplitLines (''a:'' @ [LF] @ ''b: 1'') = [''a:'', ''b: 1'']"
    by (simp add: SplitLines_def CR_def LF_def)
  have tr: "Trim ''a:'' = ''a:''" "Trim ''a'' = ''a''" "Trim ''b: 1'' = ''b: 1''"
      "Trim ''b'' = ''b''" "Trim '' 1'' = ''1''" "Trim [] = []"
    by (simp_all add: Trim_def isspace_def)
  have li: "LeadingIndent ''a:'' = 0" "LeadingIndent ''b: 1'' = 0"
    by (simp_all add: LeadingIndent_def TAB_def)
  have sc: "ParseScalarToJs strtod ''1'' = JInt 1"
    by (simp add: ParseScalarToJs_def TryParseInt64_def hex_prefixed_def DQUOTE_def strtoll_def
        isspace_def is_digit_def digit_val_def LLONG_MAX_def LLONG_MIN_def)
  have pk: "PeekNextLine [''a:'', ''b: 1''] (Suc 0)
      = \<lparr>found = True, n_indent = 0, starts_with_dash = False\<rparr>"
    by (subst PeekNextLine.simps) (simp add: tr li Let_def)
  have s1: "process_line strtod [''a:'', ''b: 1''] 0 (initial_state [])
      = Some \<lparr>stack = [\<lparr>c_indent = 0, c_is_array = False, c_container = Suc 0\<rparr>, root_context 0],
              heap = [JObject [(''a'', JRef (Suc 0))], JObject []]\<rparr>"
    by (simp add: process_line_def tr li Let_def initial_state_def napi_create_object_def
        pop_phase_single mapping_entry_def root_context_def SetObjectProperty_def pk
        create_child_def next_is_array_def child_indent_def)
  have s2: "process_line strtod [''a:'', ''b: 1''] (Suc 0)
        \<lparr>stack = [\<lparr>c_indent = 0, c_is_array = False, c_container = Suc 0\<rparr>, root_context 0],
              heap = [JObject [(''a'', JRef (Suc 0))], JObject []]\<rparr>
      = Some \<lparr>stack = [root_context 0],
              heap = [JObject [(''a'', JRef (Suc 0)), (''b'', JInt 1)], JObject []]\<rparr>"
    by (simp add: process_line_def tr li Let_def pop_phase_single pop_phase_Cons2
        mapping_entry_def root_context_def SetObjectProperty_def sc)
  have js: "ParseSessionYamlToJs strtod [] (''a:'' @ [LF] @ ''b: 1'')
      = Some ([JObject [(''a'', JRef (Suc 0)), (''b'', JInt 1)], JObject []], 0)"
    unfolding ParseSessionYamlToJs_state_after sp
    by (simp add: numeral_2_eq_2 s1 s2)
  show ?thesis
    unfolding ParseSessionYamlToTree_def js
    by (simp add: tree_of_unfold sub_tree_def)
qed


subsection \<open>No item line is ever taken\<close>

text \<open>
  A context of an array is pushed with the indent of the next line that is not blank,
  and the pop phase of that very line removes it (\<open>indent \<le> c_indent\<close>). So at every line
  of every parse the current context is an object: the branch of lines 449-512 is never
  entered, and every item line is skipped.
\<close>

lemma current_context_is_object:
  assumes "state_after strtod lines h0 i = Some st" and "i < length lines"
    and "Trim (lines ! i) \<noteq> []"
  shows "\<not> c_is_array (hd (pop_phase (LeadingIndent (lines ! i)) (stack st)))"
  using current_not_array[OF state_after_Some_ok[OF assms(1)] assms(2,3)] .

lemma item_line_always_skipped:
  assumes "state_after strtod lines h0 i = Some st" and "i < length lines"
    and "Trim (lines ! i) \<noteq> []" and "hd (Trim (lines ! i)) = CHR ''-''"
  shows "state_after strtod lines h0 (Suc i)
     = Some (st\<lparr>stack := pop_phase (LeadingIndent (lines ! i)) (stack st)\<rparr>)"
  using assms process_line_nonblank[OF state_after_Some_ok[OF assms(1)] assms(2,3), of strtod]
  by simp

subsection \<open>The claims on whole parses\<close>

text \<open>
  Claim C6. On the drivers example the parse does not give the tree of the claim, an
  array of two objects under \<open>Drivers\<close>. The array opened by \<open>Drivers:\<close> is popped by the
  first item line, both item lines are skipped, and the two \<open>UserName\<close> lines write to
  the root: the result is \<open>{Drivers: [], UserName: "Sam"}\<close>, in every heap and with every
  \<^verbatim>\<open>strtod\<close>.
\<close>

theorem drivers_example_result:
  "ParseSessionYamlToTree strtod h0 drivers_text
     = Some (Object [(''Drivers'', Array []), (''UserName'', String ''Sam'')])
   \<and> ParseSessionYamlToTree strtod h0 drivers_text
     \<noteq> Some (Object [(''Drivers'', Array
          [Object [(''CarIdx'', Int64 0), (''UserName'', String ''Bob'')],
           Object [(''CarIdx'', Int64 1), (''UserName'', String ''Sam'')]])])"
proof -
  have "ParseSessionYamlToTree strtod [] drivers_text
     = Some (Object [(''Drivers'', Array []), (''UserName'', String ''Sam'')])"
    unfolding ParseSessionYamlToTree_def drivers_js
    by (simp add: tree_of_unfold sub_tree_def)
  then show ?thesis using ParseSessionYamlToTree_shift[of strtod h0 drivers_text] by simp
qed

text \<open>
  Claim C7. Two invocations on the same text give structurally equal trees. The first
  runs in a heap \<open>h0\<close> and leaves \<open>h1\<close>, the second runs in \<open>h1\<close> and leaves \<open>h2\<close>: both
  succeed, the two roots are different cells, their trees are equal, and the second
  invocation leaves the tree of the first as it was. The tree is the same from any other
  heap \<open>h0'\<close> too. Both invocations use the same \<^verbatim>\<open>strtod\<close>.
\<close>

theorem parse_twice_equal_trees:
  "\<exists>h1 h2 t. ParseSessionYamlToJs strtod h0 session = Some (h1, length h0)
      \<and> ParseSessionYamlToJs strtod h1 session = Some (h2, length h1)
      \<and> length h0 \<noteq> length h1
      \<and> tree_of h1 (length h0) = Some t
      \<and> tree_of h2 (length h1) = Some t
      \<and> tree_of h2 (length h0) = Some t
      \<and> ParseSessionYamlToTree strtod h0' session = Some t"
proof -
  obtain h1 ts where p1: "ParseSessionYamlToJs strtod h0 session = Some (h1, length h0)"
      and l1: "length h0 < length h1" and t1: "tree_of h1 (length h0) = Some (Object ts)"
    using parse_result_tree[of strtod h0 session] by blast
  obtain h2 ts2 where p2: "ParseSessionYamlToJs strtod h1 session = Some (h2, length h1)"
      and k2: "take (length h1) h2 = h1" and t2: "tree_of h2 (length h1) = Some (Object ts2)"
    using parse_result_tree[of strtod h1 session] by blast
  have a: "ParseSessionYamlToTree strtod h0 session = Some (Object ts)"
    using p1 t1 by (simp add: ParseSessionYamlToTree_def)
  have b: "ParseSessionYamlToTree strtod h1 session = Some (Object ts2)"
    using p2 t2 by (simp add: ParseSessionYamlToTree_def)
  have eq: "ts2 = ts"
    using a b ParseSessionYamlToTree_shift[of strtod h0 session]
      ParseSessionYamlToTree_shift[of strtod h1 session] by simp
  have c: "ParseSessionYamlToTree strtod h0' session = Some (Object ts)"
    using a ParseSessionYamlToTree_shift[of strtod h0 session]
      ParseSessionYamlToTree_shift[of strtod h0' session] by simp
  have "h2 = h1 @ drop (length h1) h2" using k2 append_take_drop_id[of "length h1" h2] by simp
  then have d: "tree_of h2 (length h0) = Some (Object ts)"
    using tree_of_append[OF t1, of "drop (length h1) h2"] by simp
  show ?thesis using p1 p2 l1 t1 t2 eq d c by auto
qed

text \<open>
  Claim C8. A line whose trimmed content starts with a colon is not skipped, at any
  point of any parse: its key is the empty string, and the turn sets the property with
  the empty key in the container of the current context, an object, to the child
  container when nothing follows the colon and to the scalar otherwise. The text \<open>": 5"\<close>
  gives the object with the empty key mapped to the integer 5.
\<close>

theorem leading_colon_sets_empty_key:
  assumes "state_after strtod lines h0 i = Some st" and "i < length lines"
    and "Trim (lines ! i) \<noteq> []" and "hd (Trim (lines ! i)) = CHR '':''"
  shows "(\<exists>st' kvs kvs'.
      state_after strtod lines h0 (Suc i) = Some st'
    \<and> heap st ! c_container (hd (pop_phase (LeadingIndent (lines ! i)) (stack st))) = JObject kvs
    \<and> heap st' ! c_container (hd (pop_phase (LeadingIndent (lines ! i)) (stack st))) = JObject kvs'
    \<and> kvs' = set_property kvs []
         (if Trim (drop 1 (Trim (lines ! i))) = [] then JRef (length (heap st))
          else ParseScalarToJs strtod (Trim (drop 1 (Trim (lines ! i)))))
    \<and> map_of kvs' [] \<noteq> None)
    \<and> ParseSessionYamlToTree strtod h0 '': 5'' = Some (Object [([], Int64 5)])"
  using leading_colon_step[OF assms] leading_colon_example[of strtod]
    ParseSessionYamlToTree_shift[of strtod h0 "'': 5''"]
  by simp

theorem leading_colon_sets_empty_key_witness:
  "state_after strtod_nothing ['': 5''] [] 0 = Some (initial_state [])
   \<and> (0::nat) < length ['': 5''] \<and> Trim (['': 5''] ! 0) \<noteq> []
   \<and> hd (Trim (['': 5''] ! 0)) = CHR '':''
   \<and> (\<exists>st'. state_after strtod_nothing ['': 5''] [] (Suc 0) = Some st'
         \<and> heap st' ! 0 = JObject [([], JInt 5)])"
proof -
  have s0: "state_after strtod_nothing ['': 5''] [] 0 = Some (initial_state [])" by simp
  have tr: "Trim '': 5'' = '': 5''" "Trim '' 5'' = ''5''"
    by (simp_all add: Trim_def isspace_def)
  have nb: "Trim (['': 5''] ! 0) \<noteq> []" and hd: "hd (Trim (['': 5''] ! 0)) = CHR '':''"
    by (simp_all add: tr)
  have sc: "ParseScalarToJs strtod_nothing ''5'' = JInt 5"
    by (simp add: ParseScalarToJs_def TryParseInt64_def hex_prefixed_def DQUOTE_def strtoll_def
        isspace_def is_digit_def digit_val_def LLONG_MAX_def LLONG_MIN_def)
  have cur: "c_container (hd (pop_phase (LeadingIndent '': 5'') (stack (initial_state []))))
      = 0"
    by (simp add: initial_state_def napi_create_object_def pop_phase_single root_context_def)
  have h: "heap (initial_state []) ! 0 = (JObject [] :: unit jsnode)"
    by (simp add: initial_state_def napi_create_object_def)
  show ?thesis
    using leading_colon_sets_empty_key[OF s0 _ nb hd] s0 nb hd
    by (auto simp: cur h tr sc)
qed

lemma map_of_set_property_other:
  "k' \<noteq> k \<Longrightarrow> map_of (set_property kvs k' v) k = map_of kvs k"
  by (induction kvs k' v rule: set_property.induct) auto

lemma process_line_keeps_key:
  assumes st: "state_after strtod lines h0 n = Some st" and n: "n < length lines"
    and nb: "Trim (lines ! n) \<noteq> []"
    and a: "a < length (heap st)" and node: "heap st ! a = JObject kvs"
    and val: "map_of kvs key = Some v"
    and other: "\<not> sets_key strtod lines h0 n a key"
  shows "\<exists>st' kvs'. process_line strtod lines n st = Some st' \<and> a < length (heap st')
     \<and> heap st' ! a = JObject kvs' \<and> map_of kvs' key = Some v"
proof -
  let ?trimmed = "Trim (lines ! n)"
  let ?popped = "pop_phase (LeadingIndent (lines ! n)) (stack st)"
  let ?cur = "c_container (hd ?popped)"
  have ok: "state_ok h0 lines n st" using state_after_Some_ok[OF st] .
  obtain kvs0 where lt: "?cur < length (heap st)" and cnode: "heap st ! ?cur = JObject kvs0"
    and res: "process_line strtod lines n st = Some
         (if hd ?trimmed = CHR ''-'' then st\<lparr>stack := ?popped\<rparr>
          else case find_char (CHR '':'') ?trimmed of
             None \<Rightarrow> st\<lparr>stack := ?popped\<rparr>
           | Some colon \<Rightarrow>
               if Trim (drop (colon + 1) ?trimmed) = []
               then opened_state lines n (LeadingIndent (lines ! n))
                      (Trim (take colon ?trimmed)) ?cur kvs0 (st\<lparr>stack := ?popped\<rparr>)
               else st\<lparr>stack := ?popped,
                       heap := (heap st)[?cur :=
                            JObject (set_property kvs0 (Trim (take colon ?trimmed))
                              (ParseScalarToJs strtod (Trim (drop (colon + 1) ?trimmed))))]\<rparr>)"
    using process_line_result[OF ok n nb, of strtod] by blast
  show ?thesis
  proof (cases "hd ?trimmed = CHR ''-''")
    case True
    then show ?thesis using res a node val by simp
  next
    case nd: False
    show ?thesis
    proof (cases "find_char (CHR '':'') ?trimmed")
      case None
      then show ?thesis using res nd a node val by simp
    next
      case (Some colon)
      have diff: "?cur = a \<Longrightarrow> Trim (take colon ?trimmed) \<noteq> key"
        using other st nb nd Some by (simp add: sets_key_def)
      show ?thesis
      proof (cases "?cur = a")
        case True
        then have k0: "kvs0 = kvs" using cnode node by simp
        show ?thesis
          using res nd Some True k0 a val diff[OF True]
          by (auto simp: opened_state_def Let_def nth_append map_of_set_property_other)
      next
        case False
        then show ?thesis
          using res nd Some a node val lt
          by (auto simp: opened_state_def Let_def nth_append)
      qed
    qed
  qed
qed

lemma key_keeps_child:
  assumes st: "state_after strtod lines h0 i = Some st" and i: "i < length lines"
    and nb: "Trim (lines ! i) \<noteq> []" and nd: "hd (Trim (lines ! i)) \<noteq> CHR ''-''"
    and colon: "find_char (CHR '':'') (Trim (lines ! i)) = Some colon"
    and empty: "Trim (drop (colon + 1) (Trim (lines ! i))) = []"
    and n: "i < n"
    and other: "\<forall>j. i < j \<and> j < n \<and> j < length lines \<longrightarrow>
        \<not> sets_key strtod lines h0 j
            (c_container (hd (pop_phase (LeadingIndent (lines ! i)) (stack st))))
            (Trim (take colon (Trim (lines ! i))))"
  shows "\<exists>stn kvs. state_after strtod lines h0 n = Some stn
     \<and> c_container (hd (pop_phase (LeadingIndent (lines ! i)) (stack st))) < length (heap stn)
     \<and> heap stn ! c_container (hd (pop_phase (LeadingIndent (lines ! i)) (stack st))) = JObject kvs
     \<and> map_of kvs (Trim (take colon (Trim (lines ! i)))) = Some (JRef (length (heap st)))"
  using n other
proof (induction n)
  case 0
  then show ?case by simp
next
  case (Suc n)
  let ?cur = "c_container (hd (pop_phase (LeadingIndent (lines ! i)) (stack st)))"
  let ?key = "Trim (take colon (Trim (lines ! i)))"
  have ok: "state_ok h0 lines i st" using state_after_Some_ok[OF st] .
  show ?case
  proof (cases "n = i")
    case True
    obtain kvs where lt: "?cur < length (heap st)"
      and pl: "process_line strtod lines i st = Some
           (opened_state lines i (LeadingIndent (lines ! i)) ?key ?cur kvs
              (st\<lparr>stack := pop_phase (LeadingIndent (lines ! i)) (stack st)\<rparr>))"
      using process_line_result[OF ok i nb, of strtod] nd colon empty by auto
    show ?thesis
      using True st i pl lt
      by (simp add: opened_state_def Let_def nth_append map_of_set_property)
  next
    case False
    then have gt: "i < n" using Suc.prems by simp
    have oth: "\<forall>j. i < j \<and> j < n \<and> j < length lines \<longrightarrow> \<not> sets_key strtod lines h0 j ?cur ?key"
      using Suc.prems(2) by simp
    obtain stn kvs where stn: "state_after strtod lines h0 n = Some stn"
      and lt: "?cur < length (heap stn)" and node: "heap stn ! ?cur = JObject kvs"
      and val: "map_of kvs ?key = Some (JRef (length (heap st)))"
      using Suc.IH[OF gt oth] by blast
    show ?thesis
    proof (cases "n < length lines")
      case False
      then show ?thesis using stn lt node val by simp
    next
      case inl: True
      show ?thesis
      proof (cases "Trim (lines ! n) = []")
        case True
        then show ?thesis using stn inl lt node val by (simp add: process_line_blank)
      next
        case nbn: False
        have no: "\<not> sets_key strtod lines h0 n ?cur ?key"
          using Suc.prems(2) gt inl by simp
        obtain st' kvs' where "process_line strtod lines n stn = Some st'"
          "?cur < length (heap st')" "heap st' ! ?cur = JObject kvs'"
          "map_of kvs' ?key = Some (JRef (length (heap st)))"
          using process_line_keeps_key[OF stn inl nbn lt node val no] by blast
        then show ?thesis using stn inl by simp
      qed
    qed
  qed
qed

text \<open>
  Claim C10, as amended. A mapping line \<open>key:\<close> with an empty value, whose lookahead
  finds a next line that is not blank and not indented deeper than the line itself: the
  turn creates the child container (an array when that next line is an item, else an
  object), sets it under the key in the current object, and pushes its context at the
  indentation of that next line. The pop phase of that next line removes the context,
  so the child is empty then and at every later point of the parse, and from that line
  on no context of the stack refers to it. The key keeps the empty child as its value
  as long as no later line assigns the same key in the same object. The text
  \<open>"a:\nb: 1"\<close> gives \<open>{a: {}, b: 1}\<close>.
\<close>

theorem empty_value_child_stays_empty:
  assumes "state_after strtod lines h0 i = Some st" and "i < length lines"
    and "Trim (lines ! i) \<noteq> []" and "hd (Trim (lines ! i)) \<noteq> CHR ''-''"
    and "find_char (CHR '':'') (Trim (lines ! i)) = Some colon"
    and "Trim (drop (colon + 1) (Trim (lines ! i))) = []"
    and "found (PeekNextLine lines (i + 1))"
    and "n_indent (PeekNextLine lines (i + 1)) \<le> LeadingIndent (lines ! i)"
  shows "(\<exists>st1 kvs.
      state_after strtod lines h0 (Suc i) = Some st1
    \<and> heap st1 ! length (heap st)
         = (if starts_with_dash (PeekNextLine lines (i + 1)) then JArray [] else JObject [])
    \<and> heap st1 ! c_container (hd (pop_phase (LeadingIndent (lines ! i)) (stack st))) = JObject kvs
    \<and> map_of kvs (Trim (take colon (Trim (lines ! i)))) = Some (JRef (length (heap st)))
    \<and> stack st1 =
         \<lparr>c_indent = n_indent (PeekNextLine lines (i + 1)),
          c_is_array = starts_with_dash (PeekNextLine lines (i + 1)),
          c_container = length (heap st)\<rparr>
         # pop_phase (LeadingIndent (lines ! i)) (stack st)
    \<and> (\<exists>j. i < j \<and> j < length lines \<and> Trim (lines ! j) \<noteq> [])
    \<and> (\<forall>n. i < n \<longrightarrow> (\<exists>stn. state_after strtod lines h0 n = Some stn
          \<and> heap stn ! length (heap st)
               = (if starts_with_dash (PeekNextLine lines (i + 1)) then JArray [] else JObject [])
          \<and> ((\<exists>j. i < j \<and> j < n \<and> j < length lines \<and> Trim (lines ! j) \<noteq> [])
                \<longrightarrow> length (heap st) \<notin> c_container ` set (stack stn)))))
    \<and> (\<forall>n. i < n \<longrightarrow>
          (\<forall>j. i < j \<and> j < n \<and> j < length lines \<longrightarrow>
             \<not> sets_key strtod lines h0 j
                 (c_container (hd (pop_phase (LeadingIndent (lines ! i)) (stack st))))
                 (Trim (take colon (Trim (lines ! i))))) \<longrightarrow>
          (\<exists>stn kvs. state_after strtod lines h0 n = Some stn
             \<and> heap stn ! c_container (hd (pop_phase (LeadingIndent (lines ! i)) (stack st)))
                  = JObject kvs
             \<and> map_of kvs (Trim (take colon (Trim (lines ! i)))) = Some (JRef (length (heap st)))))
    \<and> ParseSessionYamlToTree strtod h0 (''a:'' @ [LF] @ ''b: 1'')
         = Some (Object [(''a'', Object []), (''b'', Int64 1)])"
proof -
  have ex: "ParseSessionYamlToTree strtod h0 (''a:'' @ [LF] @ ''b: 1'')
         = Some (Object [(''a'', Object []), (''b'', Int64 1)])"
    using a_b_example[of strtod] ParseSessionYamlToTree_shift[of strtod h0 "''a:'' @ [LF] @ ''b: 1''"]
    by simp
  have keep: "\<exists>stn kvs. state_after strtod lines h0 n = Some stn
             \<and> heap stn ! c_container (hd (pop_phase (LeadingIndent (lines ! i)) (stack st)))
                  = JObject kvs
             \<and> map_of kvs (Trim (take colon (Trim (lines ! i)))) = Some (JRef (length (heap st)))"
    if "i < n" and "\<forall>j. i < j \<and> j < n \<and> j < length lines \<longrightarrow>
             \<not> sets_key strtod lines h0 j
                 (c_container (hd (pop_phase (LeadingIndent (lines ! i)) (stack st))))
                 (Trim (take colon (Trim (lines ! i))))" for n
    using key_keeps_child[OF assms(1-6) that] by blast
  show ?thesis using empty_value_step[OF assms] ex keep by blast
qed

theorem empty_value_child_stays_empty_witness:
  "state_after strtod_nothing [''a:'', ''b: 1''] [] 0 = Some (initial_state [])
   \<and> (0::nat) < length [''a:'', ''b: 1''] \<and> Trim ([''a:'', ''b: 1''] ! 0) \<noteq> []
   \<and> hd (Trim ([''a:'', ''b: 1''] ! 0)) \<noteq> CHR ''-''
   \<and> find_char (CHR '':'') (Trim ([''a:'', ''b: 1''] ! 0)) = Some 1
   \<and> Trim (drop (1 + 1) (Trim ([''a:'', ''b: 1''] ! 0))) = []
   \<and> found (PeekNextLine [''a:'', ''b: 1''] (0 + 1))
   \<and> n_indent (PeekNextLine [''a:'', ''b: 1''] (0 + 1)) \<le> LeadingIndent ([''a:'', ''b: 1''] ! 0)
   \<and> \<not> sets_key strtod_nothing [''a:'', ''b: 1''] [] 1 0 ''a''
   \<and> (\<exists>stn kvs. state_after strtod_nothing [''a:'', ''b: 1''] [] 2 = Some stn
         \<and> heap stn ! 1 = JObject []
         \<and> 1 \<notin> c_container ` set (stack stn)
         \<and> heap stn ! 0 = JObject kvs \<and> map_of kvs ''a'' = Some (JRef 1))"
proof -
  let ?lines = "[''a:'', ''b: 1'']"
  have s0: "state_after strtod_nothing ?lines [] 0 = Some (initial_state [])" by simp
  have i: "(0::nat) < length ?lines" by simp
  have tr: "Trim ''a:'' = ''a:''" "Trim ''b: 1'' = ''b: 1''" "Trim [] = []" "Trim ''a'' = ''a''"
      "Trim ''b'' = ''b''"
    by (simp_all add: Trim_def isspace_def)
  have li: "LeadingIndent ''a:'' = 0" "LeadingIndent ''b: 1'' = 0"
    by (simp_all add: LeadingIndent_def TAB_def)
  have nb: "Trim (?lines ! 0) \<noteq> []" and nd: "hd (Trim (?lines ! 0)) \<noteq> CHR ''-''"
    and colon: "find_char (CHR '':'') (Trim (?lines ! 0)) = Some 1"
    and empty: "Trim (drop (1 + 1) (Trim (?lines ! 0))) = []"
    by (simp_all add: tr)
  have pk: "PeekNextLine ?lines (Suc 0) = \<lparr>found = True, n_indent = 0, starts_with_dash = False\<rparr>"
    by (subst PeekNextLine.simps) (simp add: tr li Let_def)
  have found: "found (PeekNextLine ?lines (0 + 1))"
    and le: "n_indent (PeekNextLine ?lines (0 + 1)) \<le> LeadingIndent (?lines ! 0)"
    by (simp_all add: pk li)
  have len: "length (heap (initial_state [] :: unit parse_state)) = 1"
    by (simp add: initial_state_def napi_create_object_def)
  have cur: "c_container (hd (pop_phase (LeadingIndent (?lines ! 0))
      (stack (initial_state [] :: unit parse_state)))) = 0"
    by (simp add: initial_state_def napi_create_object_def pop_phase_single root_context_def)
  have key: "Trim (take 1 (Trim (?lines ! 0))) = ''a''" by (simp add: tr)
  have nsk: "\<not> sets_key strtod_nothing ?lines [] j 0 ''a''" if "0 < j" "j < 2" for j
  proof -
    have "j = 1" using that by simp
    then show ?thesis by (simp add: sets_key_def tr split: option.splits)
  qed
  have nbl: "\<exists>j. 0 < j \<and> j < (2::nat) \<and> j < length ?lines \<and> Trim (?lines ! j) \<noteq> []"
    by (intro exI[of _ 1]) (simp add: tr)
  note inst = empty_value_child_stays_empty[OF s0 i nb nd colon empty found le]
  have "\<forall>n. 0 < n \<longrightarrow> (\<exists>stn. state_after strtod_nothing ?lines [] n = Some stn
          \<and> heap stn ! length (heap (initial_state [] :: unit parse_state))
               = (if starts_with_dash (PeekNextLine ?lines (0 + 1)) then JArray [] else JObject [])
          \<and> ((\<exists>j. 0 < j \<and> j < n \<and> j < length ?lines \<and> Trim (?lines ! j) \<noteq> [])
                \<longrightarrow> length (heap (initial_state [] :: unit parse_state))
                      \<notin> c_container ` set (stack stn)))"
    using inst by blast
  then have "\<exists>stn. state_after strtod_nothing ?lines [] 2 = Some stn
          \<and> heap stn ! length (heap (initial_state [] :: unit parse_state))
               = (if starts_with_dash (PeekNextLine ?lines (0 + 1)) then JArray [] else JObject [])
          \<and> ((\<exists>j. 0 < j \<and> j < 2 \<and> j < length ?lines \<and> Trim (?lines ! j) \<noteq> [])
                \<longrightarrow> length (heap (initial_state [] :: unit parse_state))
                      \<notin> c_container ` set (stack stn))"
    by (elim allE[of _ "2::nat"]) simp
  then obtain stn where stn: "state_after strtod_nothing ?lines [] 2 = Some stn"
      and cell: "heap stn ! length (heap (initial_state [] :: unit parse_state))
               = (if starts_with_dash (PeekNextLine ?lines (0 + 1)) then JArray [] else JObject [])"
      and gone: "length (heap (initial_state [] :: unit parse_state))
                      \<notin> c_container ` set (stack stn)"
    using nbl by blast
  have "\<forall>n. 0 < n \<longrightarrow>
          (\<forall>j. 0 < j \<and> j < n \<and> j < length ?lines \<longrightarrow>
             \<not> sets_key strtod_nothing ?lines [] j
                 (c_container (hd (pop_phase (LeadingIndent (?lines ! 0))
                    (stack (initial_state [] :: unit parse_state)))))
                 (Trim (take 1 (Trim (?lines ! 0))))) \<longrightarrow>
          (\<exists>stn kvs. state_after strtod_nothing ?lines [] n = Some stn
             \<and> heap stn ! c_container (hd (pop_phase (LeadingIndent (?lines ! 0))
                    (stack (initial_state [] :: unit parse_state))))
                  = JObject kvs
             \<and> map_of kvs (Trim (take 1 (Trim (?lines ! 0))))
                  = Some (JRef (length (heap (initial_state [] :: unit parse_state)))))"
    using inst by blast
  then have "(\<forall>j. 0 < j \<and> j < 2 \<and> j < length ?lines \<longrightarrow>
             \<not> sets_key strtod_nothing ?lines [] j 0 ''a'') \<longrightarrow>
          (\<exists>stn kvs. state_after strtod_nothing ?lines [] 2 = Some stn
             \<and> heap stn ! 0 = JObject kvs \<and> map_of kvs ''a'' = Some (JRef 1))"
    unfolding cur key len by (elim allE[of _ "2::nat"]) simp
  then obtain stn' kvs where stn': "state_after strtod_nothing ?lines [] 2 = Some stn'"
      and par: "heap stn' ! 0 = JObject kvs" "map_of kvs ''a'' = Some (JRef 1)"
    using nsk by blast
  have same: "stn' = stn" using stn stn' by simp
  have c1: "heap stn ! 1 = JObject []" using cell by (simp add: len pk)
  have c2: "1 \<notin> c_container ` set (stack stn)" using gone by (simp add: len)
  have n1: "\<not> sets_key strtod_nothing ?lines [] 1 0 ''a''" using nsk[of 1] by simp
  show ?thesis using stn s0 i nb nd colon empty found le c1 c2 par same n1 by blast
qed

text \<open>
  Claim C10 as it was written says more: that the value of the key remains an empty
  container. On \<open>"a:\nb: 1\na: 5"\<close> the first line meets every condition of the claim,
  and the third line assigns \<open>a\<close> in the root again: the tree is \<open>{a: 5, b: 1}\<close>.
\<close>

theorem empty_value_key_reassigned_counterexample:
  "SplitLines (''a:'' @ [LF] @ ''b: 1'' @ [LF] @ ''a: 5'') = [''a:'', ''b: 1'', ''a: 5'']
   \<and> state_after strtod_nothing [''a:'', ''b: 1'', ''a: 5''] [] 0 = Some (initial_state [])
   \<and> Trim ([''a:'', ''b: 1'', ''a: 5''] ! 0) \<noteq> []
   \<and> hd (Trim ([''a:'', ''b: 1'', ''a: 5''] ! 0)) \<noteq> CHR ''-''
   \<and> find_char (CHR '':'') (Trim ([''a:'', ''b: 1'', ''a: 5''] ! 0)) = Some 1
   \<and> Trim (drop (1 + 1) (Trim ([''a:'', ''b: 1'', ''a: 5''] ! 0))) = []
   \<and> found (PeekNextLine [''a:'', ''b: 1'', ''a: 5''] (0 + 1))
   \<and> n_indent (PeekNextLine [''a:'', ''b: 1'', ''a: 5''] (0 + 1))
        \<le> LeadingIndent ([''a:'', ''b: 1'', ''a: 5''] ! 0)
   \<and> ParseSessionYamlToTree strtod_nothing [] (''a:'' @ [LF] @ ''b: 1'' @ [LF] @ ''a: 5'')
        = Some (Object [(''a'', Int64 5), (''b'', Int64 1)])"
proof -
  have sp: "SplitLines (''a:'' @ [LF] @ ''b: 1'' @ [LF] @ ''a: 5'') = [''a:'', ''b: 1'', ''a: 5'']"
    by (simp add: SplitLines_def CR_def LF_def)
  have tr: "Trim ''a:'' = ''a:''" "Trim [] = []"
    by (simp_all add: Trim_def isspace_def)
  have pk: "PeekNextLine [''a:'', ''b: 1'', ''a: 5''] (Suc 0)
      = \<lparr>found = True, n_indent = 0, starts_with_dash = False\<rparr>"
    by (subst PeekNextLine.simps)
       (simp add: Trim_def isspace_def LeadingIndent_def TAB_def Let_def)
  have li: "LeadingIndent ''a:'' = 0" by (simp add: LeadingIndent_def TAB_def)
  have tree: "ParseSessionYamlToTree strtod_nothing [] (''a:'' @ [LF] @ ''b: 1'' @ [LF] @ ''a: 5'')
        = Some (Object [(''a'', Int64 5), (''b'', Int64 1)])"
    by code_simp
  show ?thesis using sp tree by (simp add: tr pk li)
qed

end
